theory Spec2Isabelle
  imports Main "HOL-Library.Word" "HOL-Library.Monad_Syntax"
begin

section \<open>Constants of mate.go\<close>

text \<open>
  Strings are byte lists, as Go strings are. The three bytes the file format turns on
  get names: the double quote, the line feed and the carriage return.
\<close>

definition dq :: char where
  "dq = CHR 0x22"

definition LF :: char where
  "LF = CHR 0x0A"

definition CR :: char where
  "CR = CHR 0x0D"

text \<open>\<^verbatim>\<open>const STOP_TOKEN = "mate:STOP"\<close>\<close>

definition STOP_TOKEN :: string where
  "STOP_TOKEN = ''mate:STOP''"

text \<open>\<^verbatim>\<open>const CSV_HEADER = "timestamp,title\n"\<close>\<close>

definition CSV_HEADER :: string where
  "CSV_HEADER = ''timestamp,title'' @ [LF]"

section \<open>Instants and durations (Go's package time)\<close>

text \<open>
  A \<^verbatim>\<open>time.Time\<close> without a monotonic reading is an instant; every instant of the
  program comes out of \<^verbatim>\<open>time.Parse\<close>, which reads the wall clock fields as UTC. The
  model counts nanoseconds since January 1 of year 1, 00:00:00 UTC, so that the zero
  \<^verbatim>\<open>Time{}\<close> is 0. A \<^verbatim>\<open>time.Duration\<close> is an int64 count of nanoseconds.
\<close>

type_synonym Time = int

type_synonym Duration = "64 word"

definition zeroTime :: Time where
  "zeroTime = 0"

definition maxDuration :: Duration where
  "maxDuration = word_of_int (2 ^ 63 - 1)"

definition minDuration :: Duration where
  "minDuration = word_of_int (- (2 ^ 63))"

text \<open>
  \<^verbatim>\<open>t.Sub(u)\<close>: the difference \<open>t - u\<close>, and the maximum (minimum) duration when the
  difference does not fit an int64.
\<close>

definition Sub :: "Time \<Rightarrow> Time \<Rightarrow> Duration" where
  "Sub t u =
     (let d = t - u
      in if d > 2 ^ 63 - 1 then maxDuration
         else if d < - (2 ^ 63) then minDuration
         else word_of_int d)"

text \<open>
  The wall clock as \<^verbatim>\<open>time.Now()\<close> reads it: the civil fields of the local time and the
  nanoseconds within the second.
\<close>

record Clock =
  year :: nat
  month :: nat
  day :: nat
  hour :: nat
  minute :: nat
  second :: nat
  nsec :: nat

definition isLeap :: "int \<Rightarrow> bool" where
  "isLeap y = (y mod 4 = 0 \<and> (y mod 100 \<noteq> 0 \<or> y mod 400 = 0))"

definition daysBefore :: "nat \<Rightarrow> int" where
  "daysBefore m = [0, 31, 59, 90, 120, 151, 181, 212, 243, 273, 304, 334, 365] ! m"

definition daysIn :: "nat \<Rightarrow> int \<Rightarrow> nat" where
  "daysIn m y =
     (if m = 2 \<and> isLeap y then 29 else nat (daysBefore m - daysBefore (m - 1)))"

text \<open>
  \<^verbatim>\<open>time.Date(year, month, day, hour, min, sec, nsec, time.UTC)\<close> for fields in range:
  the days before the year (proleptic Gregorian calendar), before the month and before
  the day, then the time of day.
\<close>

definition Date :: "nat \<Rightarrow> nat \<Rightarrow> nat \<Rightarrow> nat \<Rightarrow> nat \<Rightarrow> nat \<Rightarrow> int \<Rightarrow> Time" where
  "Date y m d h mi s ns =
     (let y1 = int y - 1;
          days = 365 * y1 + y1 div 4 - y1 div 100 + y1 div 400
                 + daysBefore (m - 1) + (if isLeap (int y) \<and> m > 2 then 1 else 0)
                 + (int d - 1)
      in ((days * 86400 + int h * 3600 + int mi * 60 + int s) * 1000000000) + ns)"

subsection \<open>Formatting with the layout 2006/01/02 15:04:05\<close>

definition digitChar :: "nat \<Rightarrow> char" where
  "digitChar n = char_of (48 + n)"

fun decimal :: "nat \<Rightarrow> string" where
  "decimal n = (if n < 10 then [digitChar n] else decimal (n div 10) @ [digitChar (n mod 10)])"

declare decimal.simps [simp del]

text \<open>\<^verbatim>\<open>appendInt(b, x, width)\<close>: decimal digits, zero-padded on the left to the width.\<close>

definition appendInt :: "nat \<Rightarrow> nat \<Rightarrow> string" where
  "appendInt x width = replicate (width - length (decimal x)) (CHR ''0'') @ decimal x"

text \<open>\<^verbatim>\<open>t.Format(TIME_FORMAT)\<close>; the nanoseconds are not printed.\<close>

definition Format :: "Clock \<Rightarrow> string" where
  "Format c =
     appendInt (year c) 4 @ ''/'' @ appendInt (month c) 2 @ ''/'' @ appendInt (day c) 2
     @ '' '' @ appendInt (hour c) 2 @ '':'' @ appendInt (minute c) 2 @ '':''
     @ appendInt (second c) 2"

subsection \<open>Parsing with the layout 2006/01/02 15:04:05\<close>

definition isDigit :: "char \<Rightarrow> bool" where
  "isDigit c = (48 \<le> (of_char c :: nat) \<and> (of_char c :: nat) \<le> 57)"

definition digitVal :: "char \<Rightarrow> nat" where
  "digitVal c = of_char c - 48"

text \<open>
  \<^verbatim>\<open>getnum(s, fixed)\<close>: a number of one or two digits at the head of \<open>s\<close>; with
  \<open>fixed\<close>, of exactly two.
\<close>

definition getnum :: "string \<Rightarrow> bool \<Rightarrow> (nat \<times> string) option" where
  "getnum s fixed =
     (case s of
        [] \<Rightarrow> None
      | c0 # r0 \<Rightarrow>
          if \<not> isDigit c0 then None
          else (case r0 of
                  [] \<Rightarrow> if fixed then None else Some (digitVal c0, r0)
                | c1 # r1 \<Rightarrow>
                    if \<not> isDigit c1 then (if fixed then None else Some (digitVal c0, r0))
                    else Some (digitVal c0 * 10 + digitVal c1, r1)))"

text \<open>The four-digit year of \<^verbatim>\<open>stdLongYear\<close>: four bytes, all of them digits.\<close>

definition getyear :: "string \<Rightarrow> (nat \<times> string) option" where
  "getyear s =
     (if length s < 4 \<or> \<not> list_all isDigit (take 4 s) then None
      else Some (foldl (\<lambda>a c. a * 10 + digitVal c) 0 (take 4 s), drop 4 s))"

text \<open>\<^verbatim>\<open>skip(value, prefix)\<close> for a one-byte prefix that is not a space.\<close>

definition skipChar :: "char \<Rightarrow> string \<Rightarrow> string option" where
  "skipChar p s = (case s of [] \<Rightarrow> None | c # r \<Rightarrow> if c = p then Some r else None)"

text \<open>
  \<^verbatim>\<open>skip(value, " ")\<close>: a space of the layout stands for any run of spaces of the
  value, which must not start with another byte; an exhausted value passes.
\<close>

definition skipSpace :: "string \<Rightarrow> string option" where
  "skipSpace s =
     (case s of
        [] \<Rightarrow> Some []
      | c # r \<Rightarrow> if c \<noteq> CHR '' '' then None else Some (dropWhile (\<lambda>x. x = CHR '' '') s))"

text \<open>
  The fractional second that \<^verbatim>\<open>Parse\<close> accepts after the seconds although the layout
  has none: a period or a comma and a maximal run of digits, of which nine count.
\<close>

definition parseNanoseconds :: "string \<Rightarrow> int" where
  "parseNanoseconds ds =
     (let k = min 9 (length ds)
      in foldl (\<lambda>a c. a * 10 + int (digitVal c)) 0 (take k ds) * 10 ^ (9 - k))"

definition getfrac :: "string \<Rightarrow> int \<times> string" where
  "getfrac s =
     (case s of
        c # d # r \<Rightarrow>
          if (c = CHR ''.'' \<or> c = CHR '','') \<and> isDigit d
          then (parseNanoseconds (takeWhile isDigit (d # r)), dropWhile isDigit (d # r))
          else (0, s)
      | _ \<Rightarrow> (0, s))"

text \<open>
  \<^verbatim>\<open>time.Parse(TIME_FORMAT, value)\<close>: \<open>None\<close> is the parse error. The fields are read
  in the layout's order, each range is checked, nothing may follow, and the instant is
  the fields read as UTC.
\<close>

definition check :: "bool \<Rightarrow> unit option" where
  "check b = (if b then Some () else None)"

definition Parse :: "string \<Rightarrow> Time option" where
  "Parse value = do {
     (y, v1) \<leftarrow> getyear value;
     v2 \<leftarrow> skipChar (CHR ''/'') v1;
     (m, v3) \<leftarrow> getnum v2 True;
     _ \<leftarrow> check (\<not> (m = 0 \<or> 12 < m));
     v4 \<leftarrow> skipChar (CHR ''/'') v3;
     (d, v5) \<leftarrow> getnum v4 True;
     v6 \<leftarrow> skipSpace v5;
     (h, v7) \<leftarrow> getnum v6 False;
     _ \<leftarrow> check (\<not> 24 \<le> h);
     v8 \<leftarrow> skipChar (CHR '':'') v7;
     (mi, v9) \<leftarrow> getnum v8 True;
     _ \<leftarrow> check (\<not> 60 \<le> mi);
     v10 \<leftarrow> skipChar (CHR '':'') v9;
     (s, v11) \<leftarrow> getnum v10 True;
     _ \<leftarrow> check (\<not> 60 \<le> s);
     (ns, v12) \<leftarrow> Some (getfrac v11);
     _ \<leftarrow> check (v12 = []);
     _ \<leftarrow> check (\<not> (d < 1 \<or> d > daysIn m (int y)));
     Some (Date y m d h mi s ns)
   }"

text \<open>
  The clocks that \<^verbatim>\<open>time.Now()\<close> can read in the years 0 to 9999: every field in
  its range, the day within its month.
\<close>

definition validClock :: "Clock \<Rightarrow> bool" where
  "validClock c \<longleftrightarrow>
     year c \<le> 9999 \<and> 1 \<le> month c \<and> month c \<le> 12 \<and>
     1 \<le> day c \<and> day c \<le> daysIn (month c) (int (year c)) \<and>
     hour c < 24 \<and> minute c < 60 \<and> second c < 60 \<and> nsec c < 1000000000"

section \<open>Reading comma-separated values (Go's package encoding/csv)\<close>

text \<open>
  The program reads its file through \<^verbatim>\<open>csv.NewReader(f)\<close> with the default settings:
  the comma separates, no comment byte, strict quotes (\<^verbatim>\<open>LazyQuotes\<close> off), leading
  space kept, and \<^verbatim>\<open>FieldsPerRecord = 0\<close>, so that the first record fixes the number of
  fields of every other. The file is its bytes; opening, reading and writing it never
  fail in the model.
\<close>

datatype csv_error = ErrBareQuote | ErrQuote | ErrFieldCount

text \<open>\<^verbatim>\<open>lengthNL(b)\<close>: 1 when \<open>b\<close> ends with a line feed, else 0.\<close>

definition lengthNL :: "string \<Rightarrow> nat" where
  "lengthNL b = (if b \<noteq> [] \<and> last b = LF then 1 else 0)"

text \<open>
  The input cut after each line feed, as \<^verbatim>\<open>ReadSlice('\n')\<close> cuts it; only the last
  piece can lack its line feed.
\<close>

fun splitLines :: "string \<Rightarrow> string list" where
  "splitLines [] = []"
| "splitLines (c # cs) =
     (if c = LF then [LF] # splitLines cs
      else (case splitLines cs of [] \<Rightarrow> [[c]] | l # ls \<Rightarrow> (c # l) # ls))"

text \<open>
  What \<^verbatim>\<open>readLine\<close> makes of a piece: before the end of the input (a piece without
  line feed) a trailing carriage return is dropped; a final CR LF becomes LF.
\<close>

definition normalizeLine :: "string \<Rightarrow> string" where
  "normalizeLine line =
     (if lengthNL line = 0
      then (if line \<noteq> [] \<and> last line = CR then butlast line else line)
      else (if length line \<ge> 2 \<and> line ! (length line - 2) = CR
            then take (length line - 2) line @ [LF]
            else line))"

text \<open>The lines that the successive calls of \<^verbatim>\<open>readLine\<close> return, up to \<^verbatim>\<open>io.EOF\<close>.\<close>

definition readLines :: "string \<Rightarrow> string list" where
  "readLines input = map normalizeLine (splitLines input)"

text \<open>\<^verbatim>\<open>bytes.IndexByte(s, c)\<close>, with \<open>None\<close> for -1.\<close>

definition indexByte :: "string \<Rightarrow> char \<Rightarrow> nat option" where
  "indexByte s c = (if c \<in> set s then Some (length (takeWhile (\<lambda>x. x \<noteq> c) s)) else None)"

lemma takeWhile_neq_less: "c \<in> set s \<Longrightarrow> length (takeWhile (\<lambda>x. x \<noteq> c) s) < length s"
  by (induction s) auto

lemma indexByte_less: "indexByte s c = Some i \<Longrightarrow> i < length s"
  by (auto simp: indexByte_def takeWhile_neq_less split: if_splits)

text \<open>
  The \<^verbatim>\<open>parseField\<close> loop of \<^verbatim>\<open>readRecord\<close>. \<open>line\<close> is what is left of the current
  line, \<open>rest\<close> the lines not yet read, \<open>flds\<close> the fields completed. \<open>parseQuoted\<close>
  is the inner loop of a quoted field, with the field's bytes so far in \<open>buf\<close>. The
  result is the error, or the record's fields and the lines left.
\<close>

function parseField :: "string \<Rightarrow> string list \<Rightarrow> string list \<Rightarrow> csv_error + (string list \<times> string list)"
  and parseQuoted ::
    "string \<Rightarrow> string list \<Rightarrow> string list \<Rightarrow> string \<Rightarrow> csv_error + (string list \<times> string list)" where
  "parseField line rest flds =
     (if line = [] \<or> hd line \<noteq> dq then
        (case indexByte line (CHR '','') of
           Some i \<Rightarrow>
             if dq \<in> set (take i line) then Inl ErrBareQuote
             else parseField (drop (i + 1) line) rest (flds @ [take i line])
         | None \<Rightarrow>
             if dq \<in> set (take (length line - lengthNL line) line) then Inl ErrBareQuote
             else Inr (flds @ [take (length line - lengthNL line) line], rest))
      else parseQuoted (drop 1 line) rest flds [])"
| "parseQuoted line rest flds buf =
     (case indexByte line dq of
        Some i \<Rightarrow>
          (let line' = drop (i + 1) line; buf' = buf @ take i line
           in if line' \<noteq> [] \<and> hd line' = dq
              then parseQuoted (drop 1 line') rest flds (buf' @ [dq])
              else if line' \<noteq> [] \<and> hd line' = CHR '',''
              then parseField (drop 1 line') rest (flds @ [buf'])
              else if lengthNL line' = length line'
              then Inr (flds @ [buf'], rest)
              else Inl ErrQuote)
      | None \<Rightarrow>
          if length line > 0
          then (case rest of
                  [] \<Rightarrow> parseQuoted [] [] flds (buf @ line)
                | l # r \<Rightarrow> parseQuoted l r flds (buf @ line))
          else Inl ErrQuote)"
  by pat_completeness auto
termination
  by (relation "measure (\<lambda>x. case x of
         Inl (line, rest, flds) \<Rightarrow> length line + sum_list (map (\<lambda>l. Suc (length l)) rest)
       | Inr (line, rest, flds, buf) \<Rightarrow> length line + sum_list (map (\<lambda>l. Suc (length l)) rest))")
     (auto dest: indexByte_less)

declare parseField.simps [simp del]

declare parseQuoted.simps [simp del]

text \<open>
  \<^verbatim>\<open>readRecord\<close>: empty lines are skipped; at the end of the input the result is
  \<^verbatim>\<open>io.EOF\<close>.
\<close>

datatype read_result = EOF | Failed csv_error | Fields "string list" "string list"

fun readRecord :: "string list \<Rightarrow> read_result" where
  "readRecord [] = EOF"
| "readRecord (line # rest) =
     (if length line = lengthNL line then readRecord rest
      else (case parseField line rest [] of
              Inl e \<Rightarrow> Failed e
            | Inr (flds, rest') \<Rightarrow> Fields flds rest'))"

lemma indexByte_Nil [simp]: "indexByte [] c = None"
  by (simp add: indexByte_def)

lemma parseField_quoted:
  "line \<noteq> [] \<Longrightarrow> hd line = dq \<Longrightarrow>
   parseField line rest flds = parseQuoted (drop 1 line) rest flds []"
  by (subst parseField.simps) simp

lemma parseField_comma:
  "line = [] \<or> hd line \<noteq> dq \<Longrightarrow> indexByte line (CHR '','') = Some i \<Longrightarrow>
   parseField line rest flds =
     (if dq \<in> set (take i line) then Inl ErrBareQuote
      else parseField (drop (i + 1) line) rest (flds @ [take i line]))"
  by (subst parseField.simps) (simp only: if_True option.case)

lemma parseField_last:
  "line = [] \<or> hd line \<noteq> dq \<Longrightarrow> indexByte line (CHR '','') = None \<Longrightarrow>
   parseField line rest flds =
     (if dq \<in> set (take (length line - lengthNL line) line) then Inl ErrBareQuote
      else Inr (flds @ [take (length line - lengthNL line) line], rest))"
  by (subst parseField.simps) (simp only: if_True option.case)

lemma parseQuoted_found:
  "indexByte line dq = Some i \<Longrightarrow>
   parseQuoted line rest flds buf =
     (if drop (i + 1) line \<noteq> [] \<and> hd (drop (i + 1) line) = dq
      then parseQuoted (drop 1 (drop (i + 1) line)) rest flds ((buf @ take i line) @ [dq])
      else if drop (i + 1) line \<noteq> [] \<and> hd (drop (i + 1) line) = CHR '',''
      then parseField (drop 1 (drop (i + 1) line)) rest (flds @ [buf @ take i line])
      else if lengthNL (drop (i + 1) line) = length (drop (i + 1) line)
      then Inr (flds @ [buf @ take i line], rest)
      else Inl ErrQuote)"
  by (subst parseQuoted.simps) (simp only: Let_def option.case)

lemma parseQuoted_eof:
  "indexByte line dq = None \<Longrightarrow> parseQuoted line [] flds buf = Inl ErrQuote"
  by (subst parseQuoted.simps, simp, subst parseQuoted.simps, simp)

lemma parseQuoted_more:
  "indexByte line dq = None \<Longrightarrow> line \<noteq> [] \<Longrightarrow>
   parseQuoted line (l # r) flds buf = parseQuoted l r flds (buf @ line)"
  by (subst parseQuoted.simps) simp

lemma parseQuoted_empty:
  "parseQuoted [] rest flds buf = Inl ErrQuote"
  by (subst parseQuoted.simps) simp

lemma parseField_rest_length:
    "parseField line rest flds = Inr (fs, rest') \<Longrightarrow> length rest' \<le> length rest"
  and parseQuoted_rest_length:
    "parseQuoted line rest flds buf = Inr (fs, rest') \<Longrightarrow> length rest' \<le> length rest"
proof (induction line rest flds and line rest flds buf
       rule: parseField_parseQuoted.induct)
  case (1 line rest flds)
  show ?case
  proof (cases "line = [] \<or> hd line \<noteq> dq")
    case True
    show ?thesis
    proof (cases "indexByte line (CHR '','')")
      case None
      with True "1.prems" show ?thesis
        by (auto simp: parseField_last split: if_splits)
    next
      case (Some i)
      with True "1.prems" have
        "parseField (drop (i + 1) line) rest (flds @ [take i line]) = Inr (fs, rest')"
        and "dq \<notin> set (take i line)"
        by (auto simp: parseField_comma split: if_splits)
      with "1.IH"(1) [OF True Some] show ?thesis by simp
    qed
  next
    case False
    with "1.prems" have "parseQuoted (drop 1 line) rest flds [] = Inr (fs, rest')"
      by (simp add: parseField_quoted)
    with "1.IH"(2) [OF False] show ?thesis by simp
  qed
next
  case (2 line rest flds buf)
  show ?case
  proof (cases "indexByte line dq")
    case None
    show ?thesis
    proof (cases rest)
      case Nil
      with None "2.prems" show ?thesis by (simp add: parseQuoted_eof)
    next
      case (Cons l r)
      show ?thesis
      proof (cases "line = []")
        case True
        with "2.prems" show ?thesis by (simp add: parseQuoted_empty)
      next
        case False
        with None Cons "2.prems" have "parseQuoted l r flds (buf @ line) = Inr (fs, rest')"
          by (simp add: parseQuoted_more)
        moreover have "0 < length line" using False by simp
        ultimately show ?thesis using "2.IH"(2) [OF None _ Cons] Cons by simp
      qed
    qed
  next
    case (Some i)
    let ?line' = "drop (i + 1) line"
    let ?buf' = "buf @ take i line"
    note p = "2.prems" [unfolded parseQuoted_found [OF Some]]
    show ?thesis
    proof (cases "?line' \<noteq> [] \<and> hd ?line' = dq")
      case True
      with p "2.IH"(3) [OF Some refl refl True] show ?thesis by simp
    next
      case nq: False
      show ?thesis
      proof (cases "?line' \<noteq> [] \<and> hd ?line' = CHR '',''")
        case True
        with p nq "2.IH"(4) [OF Some refl refl nq True] show ?thesis by auto
      next
        case False
        with p nq show ?thesis by (auto split: if_splits)
      qed
    qed
  qed
qed

lemma readRecord_rest_length:
  "readRecord ls = Fields fs rest' \<Longrightarrow> length rest' < length ls"
proof (induction ls)
  case Nil
  then show ?case by simp
next
  case (Cons line rest)
  then show ?case
    using parseField_rest_length [of line rest "[]" fs rest']
    by (auto split: if_splits sum.splits)
qed

text \<open>
  The loop of \<^verbatim>\<open>ReadAll\<close>, with the reader's \<^verbatim>\<open>FieldsPerRecord\<close> as an argument: 0
  until the first record sets it.
\<close>

function ReadAllLoop :: "nat \<Rightarrow> string list \<Rightarrow> string list list \<Rightarrow> csv_error + string list list" where
  "ReadAllLoop fieldsPerRecord input records =
     (case readRecord input of
        EOF \<Rightarrow> Inr records
      | Failed e \<Rightarrow> Inl e
      | Fields flds rest \<Rightarrow>
          if fieldsPerRecord > 0 \<and> length flds \<noteq> fieldsPerRecord then Inl ErrFieldCount
          else ReadAllLoop (if fieldsPerRecord = 0 then length flds else fieldsPerRecord)
                 rest (records @ [flds]))"
  by pat_completeness auto
termination
  by (relation "measure (\<lambda>(fieldsPerRecord, input, records). length input)")
     (auto dest: readRecord_rest_length)

declare ReadAllLoop.simps [simp del]

definition ReadAll :: "string \<Rightarrow> csv_error + string list list" where
  "ReadAll file = ReadAllLoop 0 (readLines file) []"

section \<open>Records and the entries derived from them\<close>

text \<open>\<^verbatim>\<open>type Record struct { timestamp time.Time; title string }\<close>\<close>

record Record =
  timestamp :: Time
  title :: string

text \<open>
  The anonymous \<^verbatim>\<open>struct { title string; duration time.Duration }\<close> of the entry
  functions is a pair.
\<close>

type_synonym ticket = "string \<times> Duration"

text \<open>
  Line 223: \<^verbatim>\<open>now, _ := time.Parse(TIME_FORMAT, time.Now().Format(TIME_FORMAT))\<close>.
  The error is dropped, and on an error \<^verbatim>\<open>Parse\<close> returns the zero time.
\<close>

definition reparsedNow :: "Clock \<Rightarrow> Time" where
  "reparsedNow clock = (case Parse (Format clock) of Some t \<Rightarrow> t | None \<Rightarrow> zeroTime)"

text \<open>The instant that \<^verbatim>\<open>time.Now()\<close> read, with its nanoseconds.\<close>

definition instantOf :: "Clock \<Rightarrow> Time" where
  "instantOf c =
     Date (year c) (month c) (day c) (hour c) (minute c) (second c) (int (nsec c))"

text \<open>
  The \<^verbatim>\<open>for i, r := range records\<close> loop of \<^verbatim>\<open>computeEntriesDuration\<close>, with its
  variables \<open>i\<close>, \<open>currentTicketTitle\<close>, \<open>startTime\<close> and \<open>tickets\<close> as arguments;
  it returns the last three.
\<close>

fun entriesLoop ::
  "nat \<Rightarrow> string \<Rightarrow> Time \<Rightarrow> ticket list \<Rightarrow> Record list \<Rightarrow> string \<times> Time \<times> ticket list" where
  "entriesLoop i currentTicketTitle startTime tickets [] =
     (currentTicketTitle, startTime, tickets)"
| "entriesLoop i currentTicketTitle startTime tickets (r # rs) =
     entriesLoop (i + 1) (title r) (timestamp r)
       (if i \<noteq> 0 then tickets @ [(currentTicketTitle, Sub (timestamp r) startTime)]
        else tickets)
       rs"

definition computeEntriesDuration :: "Record list \<Rightarrow> Clock \<Rightarrow> ticket list" where
  "computeEntriesDuration records clock =
     (if length records = 0 then []
      else
        (case entriesLoop 0 [] zeroTime [] records of
           (currentTicketTitle, startTime, tickets) \<Rightarrow>
             (let last = records ! (length records - 1)
              in if title last \<noteq> STOP_TOKEN
                 then tickets @ [(title last, Sub (reparsedNow clock) startTime)]
                 else tickets)))"

text \<open>\<^verbatim>\<open>filterStops\<close>: the tickets whose title is not the stop token, in order.\<close>

fun filterStops :: "ticket list \<Rightarrow> ticket list" where
  "filterStops [] = []"
| "filterStops (t # ts) =
     (if fst t \<noteq> STOP_TOKEN then t # filterStops ts else filterStops ts)"

text \<open>
  \<^verbatim>\<open>groupDurations\<close>: the loop \<^verbatim>\<open>groupedTickets[t.title] += t.duration\<close> over a Go
  map; a missing key reads as 0, and the int64 addition wraps.
\<close>

fun groupLoop :: "(string \<rightharpoonup> Duration) \<Rightarrow> ticket list \<Rightarrow> (string \<rightharpoonup> Duration)" where
  "groupLoop groupedTickets [] = groupedTickets"
| "groupLoop groupedTickets (t # ts) =
     groupLoop
       (groupedTickets(fst t \<mapsto>
          (case groupedTickets (fst t) of None \<Rightarrow> 0 | Some d \<Rightarrow> d) + snd t))
       ts"

definition groupDurations :: "ticket list \<Rightarrow> (string \<rightharpoonup> Duration)" where
  "groupDurations tickets = groupLoop Map.empty tickets"

text \<open>\<^verbatim>\<open>computeTotalTime\<close>: the loop \<^verbatim>\<open>totalTime += t.duration\<close>, from 0.\<close>

fun totalLoop :: "Duration \<Rightarrow> ticket list \<Rightarrow> Duration" where
  "totalLoop totalTime [] = totalTime"
| "totalLoop totalTime (t # ts) = totalLoop (totalTime + snd t) ts"

definition computeTotalTime :: "ticket list \<Rightarrow> Duration" where
  "computeTotalTime tickets = totalLoop 0 tickets"

section \<open>The ledger file and the commands\<close>

text \<open>
  What ends a run before its time: \<^verbatim>\<open>log.Fatal\<close> on an error of the reader or of
  \<^verbatim>\<open>time.Parse\<close>, and the runtime panic of \<^verbatim>\<open>rawRecord[1]\<close> on a record of one field.
\<close>

datatype fatal = CsvFatal csv_error | ParseFatal | IndexOutOfRange

text \<open>
  \<^verbatim>\<open>ensureCSVExists\<close>: the first record is read; at \<^verbatim>\<open>io.EOF\<close> (a file with no record)
  the header is written where the reading stopped, the end of the file.
\<close>

definition ensureCSVExists :: "string \<Rightarrow> fatal + string" where
  "ensureCSVExists file =
     (case readRecord (readLines file) of
        EOF \<Rightarrow> Inr (file @ CSV_HEADER)
      | Failed e \<Rightarrow> Inl (CsvFatal e)
      | Fields flds rest \<Rightarrow> Inr file)"

text \<open>
  The \<^verbatim>\<open>for index, rawRecord := range rawRecords\<close> loop of \<^verbatim>\<open>getRecords\<close>: the header
  is passed over, every other record gives its first field to \<^verbatim>\<open>time.Parse\<close> and its
  second as the title.
\<close>

fun recordsLoop :: "nat \<Rightarrow> string list list \<Rightarrow> Record list \<Rightarrow> fatal + Record list" where
  "recordsLoop index [] records = Inr records"
| "recordsLoop index (rawRecord # rawRecords) records =
     (if index = 0 then recordsLoop (index + 1) rawRecords records
      else if length rawRecord < 1 then Inl IndexOutOfRange
      else (case Parse (rawRecord ! 0) of
              None \<Rightarrow> Inl ParseFatal
            | Some t \<Rightarrow>
                if length rawRecord < 2 then Inl IndexOutOfRange
                else recordsLoop (index + 1) rawRecords
                       (records @ [\<lparr>timestamp = t, title = rawRecord ! 1\<rparr>])))"

text \<open>\<^verbatim>\<open>getRecords\<close>: the records, and the file as \<^verbatim>\<open>ensureCSVExists\<close> left it.\<close>

definition getRecords :: "string \<Rightarrow> fatal + (Record list \<times> string)" where
  "getRecords file =
     (case ensureCSVExists file of
        Inl e \<Rightarrow> Inl e
      | Inr file' \<Rightarrow>
          (case ReadAll file' of
             Inl e \<Rightarrow> Inl (CsvFatal e)
           | Inr rawRecords \<Rightarrow>
               (case recordsLoop 0 rawRecords [] of
                  Inl e \<Rightarrow> Inl e
                | Inr records \<Rightarrow> Inr (records, file'))))"

text \<open>
  \<^verbatim>\<open>writeTicket\<close>: the line \<^verbatim>\<open>"now","title"\<close> and a line feed, appended to the file; the
  title goes in as it is.
\<close>

definition literalRecord :: "Clock \<Rightarrow> string \<Rightarrow> string" where
  "literalRecord clock ttl =
     [dq] @ Format clock @ [dq] @ '','' @ [dq] @ ttl @ [dq] @ [LF]"

definition writeTicket :: "Clock \<Rightarrow> string \<Rightarrow> string \<Rightarrow> fatal + string" where
  "writeTicket clock ttl file =
     (case ensureCSVExists file of
        Inl e \<Rightarrow> Inl e
      | Inr file' \<Rightarrow> Inr (file' @ literalRecord clock ttl))"

text \<open>
  What a command prints, by the function that prints it. A command's result is the
  file it leaves, what it printed and its exit status: 0 when it returns, 1 after
  \<^verbatim>\<open>os.Exit(1)\<close>.
\<close>

datatype message =
    STARTING string
  | STOPPING string
  | NotCurrentlyWorking
  | NoEntrySaved
  | NoPreviousTicket
  | CurrentlyWorkingOn string

type_synonym outcome = "string \<times> message \<times> nat"

definition startTicket :: "Clock \<Rightarrow> string \<Rightarrow> string \<Rightarrow> fatal + outcome" where
  "startTicket clock ttl file =
     (case writeTicket clock ttl file of
        Inl e \<Rightarrow> Inl e
      | Inr file' \<Rightarrow> Inr (file', STARTING ttl, 0))"

definition stopTicket :: "Clock \<Rightarrow> string \<Rightarrow> fatal + outcome" where
  "stopTicket clock file =
     (case getRecords file of
        Inl e \<Rightarrow> Inl e
      | Inr (records, file') \<Rightarrow>
          (let working = (length records \<noteq> 0
                          \<and> title (records ! (length records - 1)) \<noteq> STOP_TOKEN)
           in if working
              then (case writeTicket clock STOP_TOKEN file' of
                      Inl e \<Rightarrow> Inl e
                    | Inr file'' \<Rightarrow>
                        Inr (file'', STOPPING (title (records ! (length records - 1))), 0))
              else Inr (file', NotCurrentlyWorking, 0)))"

definition yellForNoRecord :: "string \<Rightarrow> fatal + outcome" where
  "yellForNoRecord file = Inr (file, NoEntrySaved, 1)"

definition yellForNoPreviousTicket :: "string \<Rightarrow> fatal + outcome" where
  "yellForNoPreviousTicket file = Inr (file, NoPreviousTicket, 1)"

definition yellForNotStopped :: "string \<Rightarrow> string \<Rightarrow> fatal + outcome" where
  "yellForNotStopped currentTicketTitle file = Inr (file, CurrentlyWorkingOn currentTicketTitle, 1)"

definition restartLastTicket :: "Clock \<Rightarrow> string \<Rightarrow> fatal + outcome" where
  "restartLastTicket clock file =
     (case getRecords file of
        Inl e \<Rightarrow> Inl e
      | Inr (records, file') \<Rightarrow>
          (let numberOfRecords = length records
           in if numberOfRecords = 0 then yellForNoRecord file'
              else if numberOfRecords = 1 then
                (if title (records ! 0) = STOP_TOKEN then yellForNoPreviousTicket file'
                 else yellForNotStopped (title (records ! 0)) file')
              else
                (let last = records ! (length records - 1)
                 in if title last = STOP_TOKEN then
                      (let penultimate = records ! (length records - 2)
                       in if title penultimate = STOP_TOKEN then yellForNoPreviousTicket file'
                          else startTicket clock (title penultimate) file')
                    else yellForNotStopped (title last) file')))"

definition getLastTicketTitle :: "string \<Rightarrow> fatal + (string \<times> string)" where
  "getLastTicketTitle file =
     (case getRecords file of
        Inl e \<Rightarrow> Inl e
      | Inr (records, file') \<Rightarrow>
          Inr (if length records = 0 then STOP_TOKEN
               else title (records ! (length records - 1)), file'))"

text \<open>
  The log file as the program itself leaves it: empty before the first run, then the
  header line and whole lines after it.
\<close>

definition ledgerFile :: "string \<Rightarrow> bool" where
  "ledgerFile file \<longleftrightarrow>
     file = [] \<or> (take (length CSV_HEADER) file = CSV_HEADER \<and> last file = LF)"

section \<open>Formatting an instant and parsing it back\<close>

lemma of_char_digitChar: "k < 10 \<Longrightarrow> (of_char (digitChar k) :: nat) = 48 + k"
  by (simp add: digitChar_def)

lemma isDigit_digitChar: "k < 10 \<Longrightarrow> isDigit (digitChar k)"
  by (simp add: isDigit_def of_char_digitChar)

lemma digitVal_digitChar: "k < 10 \<Longrightarrow> digitVal (digitChar k) = k"
  by (simp add: digitVal_def of_char_digitChar)

lemma decimal1: "n < 10 \<Longrightarrow> decimal n = [digitChar n]"
  by (subst decimal.simps) simp

lemma decimal2: "10 \<le> n \<Longrightarrow> n < 100 \<Longrightarrow> decimal n = [digitChar (n div 10), digitChar (n mod 10)]"
  by (subst decimal.simps) (simp add: decimal1)

lemma decimal3:
  "100 \<le> n \<Longrightarrow> n < 1000 \<Longrightarrow>
   decimal n = [digitChar (n div 100), digitChar (n div 10 mod 10), digitChar (n mod 10)]"
proof -
  assume a: "100 \<le> n" "n < 1000"
  have e: "n div 10 div 10 = n div 100" by (simp add: div_mult2_eq [symmetric])
  have "10 \<le> n div 10" "n div 10 < 100" using a by auto
  then have "decimal (n div 10) = [digitChar (n div 100), digitChar (n div 10 mod 10)]"
    by (simp only: decimal2 e)
  then show ?thesis using a by (subst decimal.simps) simp
qed

lemma decimal4:
  "1000 \<le> n \<Longrightarrow> n < 10000 \<Longrightarrow>
   decimal n = [digitChar (n div 1000), digitChar (n div 100 mod 10),
                digitChar (n div 10 mod 10), digitChar (n mod 10)]"
proof -
  assume a: "1000 \<le> n" "n < 10000"
  have e: "n div 10 div 100 = n div 1000" "n div 10 div 10 = n div 100"
    by (simp_all add: div_mult2_eq [symmetric])
  have "100 \<le> n div 10" "n div 10 < 1000" using a by auto
  then have "decimal (n div 10) =
      [digitChar (n div 1000), digitChar (n div 100 mod 10), digitChar (n div 10 mod 10)]"
    by (simp only: decimal3 e)
  then show ?thesis using a by (subst decimal.simps) simp
qed

lemma digitChar_0: "digitChar 0 = CHR ''0''"
  by code_simp

lemma daysIn_le: "1 \<le> m \<Longrightarrow> m \<le> 12 \<Longrightarrow> daysIn m y \<le> 31"
proof -
  assume "1 \<le> m" "m \<le> 12"
  then have "m \<in> set [1, 2, 3, 4, 5, 6, 7, 8, 9, 10, 11, 12]"
    by (simp del: One_nat_def) presburger
  then show ?thesis
    unfolding set_simps insert_iff empty_iff
    by (elim disjE) (simp_all add: daysIn_def daysBefore_def)
qed

lemma replicate_small:
  "replicate (Suc 0) x = [x]" "replicate 2 x = [x, x]" "replicate 3 x = [x, x, x]"
  by (simp_all add: numeral_2_eq_2 numeral_3_eq_3)

lemma appendInt2:
  "n < 100 \<Longrightarrow> appendInt n 2 = [digitChar (n div 10), digitChar (n mod 10)]"
  by (cases "n < 10") (simp_all add: appendInt_def decimal1 decimal2 digitChar_0)

lemma appendInt4:
  "n < 10000 \<Longrightarrow>
   appendInt n 4 = [digitChar (n div 1000), digitChar (n div 100 mod 10),
                    digitChar (n div 10 mod 10), digitChar (n mod 10)]"
proof -
  assume n: "n < 10000"
  consider "n < 10" | "10 \<le> n" "n < 100" | "100 \<le> n" "n < 1000" | "1000 \<le> n"
    by linarith
  then show ?thesis
  proof cases
    case 1 then show ?thesis by (simp add: appendInt_def decimal1 digitChar_0 replicate_small)
  next
    case 2 then show ?thesis by (simp add: appendInt_def decimal2 digitChar_0 replicate_small)
  next
    case 3 then show ?thesis by (simp add: appendInt_def decimal3 digitChar_0 replicate_small)
  next
    case 4 then show ?thesis using n by (simp add: appendInt_def decimal4)
  qed
qed

lemma getnum_digits:
  "a < 10 \<Longrightarrow> b < 10 \<Longrightarrow> getnum (digitChar a # digitChar b # r) fixed = Some (a * 10 + b, r)"
  by (simp add: getnum_def isDigit_digitChar digitVal_digitChar)

lemma getnum_appendInt2: "n < 100 \<Longrightarrow> getnum (appendInt n 2 @ r) fixed = Some (n, r)"
  by (simp add: appendInt2 getnum_digits)

lemma getnum_appendInt2_end: "n < 100 \<Longrightarrow> getnum (appendInt n 2) fixed = Some (n, [])"
  using getnum_appendInt2 [of n "[]" fixed] by simp

lemma digits4:
  "((n div 1000 * 10 + n div 100 mod 10) * 10 + n div 10 mod 10) * 10 + n mod 10 = (n::nat)"
proof -
  have e: "n div 100 div 10 = n div 1000" "n div 10 div 10 = n div 100"
    by (simp_all add: div_mult2_eq [symmetric])
  have "n div 1000 * 10 + n div 100 mod 10 = n div 100"
    using div_mult_mod_eq [of "n div 100" 10] by (simp only: e)
  moreover have "n div 100 * 10 + n div 10 mod 10 = n div 10"
    using div_mult_mod_eq [of "n div 10" 10] by (simp only: e)
  moreover have "n div 10 * 10 + n mod 10 = n"
    by (rule div_mult_mod_eq)
  ultimately show ?thesis by simp
qed

lemma getyear_appendInt4: "n < 10000 \<Longrightarrow> getyear (appendInt n 4 @ r) = Some (n, r)"
proof -
  assume n: "n < 10000"
  have d: "n div 1000 < 10" "n div 100 mod 10 < 10" "n div 10 mod 10 < 10" "n mod 10 < 10"
    using n by auto
  show ?thesis
    using d digits4 [of n]
    by (simp add: appendInt4 [OF n] getyear_def isDigit_digitChar digitVal_digitChar)
qed

lemma isDigit_not_space: "isDigit c \<Longrightarrow> c \<noteq> CHR '' ''"
  by (auto simp: isDigit_def)

lemma skipSpace_digits: "n < 100 \<Longrightarrow> skipSpace (CHR '' '' # appendInt n 2 @ r) = Some (appendInt n 2 @ r)"
  using isDigit_not_space [OF isDigit_digitChar, of "n div 10"]
  by (simp add: skipSpace_def appendInt2)

lemma Parse_Format:
  assumes "validClock c"
  shows "Parse (Format c) = Some (Date (year c) (month c) (day c) (hour c) (minute c) (second c) 0)"
proof -
  have "day c \<le> 31"
    using assms daysIn_le [of "month c" "int (year c)"] by (simp add: validClock_def)
  then have b: "year c < 10000" "month c < 100" "day c < 100" "hour c < 100"
      "minute c < 100" "second c < 100"
    using assms by (simp_all add: validClock_def)
  have r: "month c \<noteq> 0" "\<not> 12 < month c" "\<not> 24 \<le> hour c" "\<not> 60 \<le> minute c"
      "\<not> 60 \<le> second c" "\<not> day c < 1" "\<not> day c > daysIn (month c) (int (year c))"
    using assms by (simp_all add: validClock_def)
  show ?thesis
    unfolding Parse_def Format_def
    using b r
    by (simp add: getyear_appendInt4 getnum_appendInt2 getnum_appendInt2_end skipChar_def skipSpace_digits
          check_def getfrac_def)
qed


lemma reparsedNow_valid:
  "validClock c \<Longrightarrow>
   reparsedNow c = Date (year c) (month c) (day c) (hour c) (minute c) (second c) 0"
  by (simp add: reparsedNow_def Parse_Format)

section \<open>Durations\<close>

lemma sint_word64:
  "- (2 ^ 63) \<le> d \<Longrightarrow> d \<le> 2 ^ 63 - 1 \<Longrightarrow> sint (word_of_int d :: 64 word) = d"
  by (simp add: sint_sbintrunc' signed_take_bit_int_eq_self)

lemma Sub_nonneg: "u \<le> t \<Longrightarrow> 0 \<le> sint (Sub t u)"
proof -
  assume a: "u \<le> t"
  show ?thesis
  proof (cases "t - u > 2 ^ 63 - 1")
    case True
    then show ?thesis by (simp add: Sub_def maxDuration_def)
  next
    case False
    then have "sint (word_of_int (t - u) :: 64 word) = t - u"
      using a by (intro sint_word64) auto
    then show ?thesis using a False by (simp add: Sub_def Let_def del: of_int_diff)
  qed
qed

lemma Sub_exact:
  "- (2 ^ 63) \<le> t - u \<Longrightarrow> t - u \<le> 2 ^ 63 - 1 \<Longrightarrow> sint (Sub t u) = t - u"
  by (simp add: Sub_def Let_def sint_word64 del: of_int_diff)

section \<open>The entries of a list of records\<close>

text \<open>The entries between neighbours, by recursion on the records.\<close>

fun adjacent :: "Record list \<Rightarrow> ticket list" where
  "adjacent (a # b # rs) = (title a, Sub (timestamp b) (timestamp a)) # adjacent (b # rs)"
| "adjacent _ = []"

lemma entriesLoop_from:
  "i \<noteq> 0 \<Longrightarrow> entriesLoop i (title p) (timestamp p) acc rs =
     (title (last (p # rs)), timestamp (last (p # rs)), acc @ adjacent (p # rs))"
proof (induction rs arbitrary: i p acc)
  case Nil
  then show ?case by simp
next
  case (Cons r rs)
  have "entriesLoop i (title p) (timestamp p) acc (r # rs) =
        entriesLoop (i + 1) (title r) (timestamp r)
          (acc @ [(title p, Sub (timestamp r) (timestamp p))]) rs"
    using Cons.prems by simp
  also have "\<dots> = (title (last (r # rs)), timestamp (last (r # rs)),
                   (acc @ [(title p, Sub (timestamp r) (timestamp p))]) @ adjacent (r # rs))"
    by (rule Cons.IH) simp
  finally show ?case by simp
qed

lemma entriesLoop_start:
  "entriesLoop 0 c s [] (r # rs) =
     (title (last (r # rs)), timestamp (last (r # rs)), adjacent (r # rs))"
  using entriesLoop_from [of 1 r "[]" rs] by simp

lemma adjacent_index:
  "adjacent rs =
     map (\<lambda>i. (title (rs ! i), Sub (timestamp (rs ! Suc i)) (timestamp (rs ! i))))
       [0..<length rs - 1]"
proof (induction rs rule: adjacent.induct)
  case (1 a b rs)
  have "[0..<length (a # b # rs) - 1] = 0 # map Suc [0..<length (b # rs) - 1]"
    by (simp add: upt_conv_Cons map_Suc_upt del: upt_Suc)
  then show ?case using 1 by (simp add: comp_def del: upt_Suc)
qed simp_all

lemma computeEntriesDuration_eq:
  "computeEntriesDuration records clock =
     adjacent records
     @ (if records \<noteq> [] \<and> title (last records) \<noteq> STOP_TOKEN
        then [(title (last records), Sub (reparsedNow clock) (timestamp (last records)))]
        else [])"
proof (cases records)
  case Nil
  then show ?thesis by (simp add: computeEntriesDuration_def)
next
  case (Cons r rs)
  have l: "records ! (length records - 1) = last records"
    using Cons by (simp add: last_conv_nth)
  show ?thesis
    unfolding computeEntriesDuration_def l
    using Cons by (simp add: entriesLoop_start Let_def del: entriesLoop.simps)
qed


text \<open>
  C7. When the timestamps of the records do not decrease, every entry that
  \<^verbatim>\<open>computeEntriesDuration\<close> derives from a pair of neighbours (the first
  \<open>length records - 1\<close> entries) has a duration of at least zero.
\<close>

theorem adjacent_durations_nonneg:
  assumes "sorted (map timestamp records)"
    and "i < length records - 1"
  shows "computeEntriesDuration records clock ! i =
           (title (records ! i), Sub (timestamp (records ! Suc i)) (timestamp (records ! i)))
         \<and> 0 \<le> sint (snd (computeEntriesDuration records clock ! i))"
proof -
  have n: "computeEntriesDuration records clock ! i = adjacent records ! i"
    using assms(2) by (simp add: computeEntriesDuration_eq adjacent_index nth_append)
  have a: "adjacent records ! i =
      (title (records ! i), Sub (timestamp (records ! Suc i)) (timestamp (records ! i)))"
    using assms(2) by (simp add: adjacent_index del: upt_Suc)
  have "timestamp (records ! i) \<le> timestamp (records ! Suc i)"
    using assms sorted_nth_mono [of "map timestamp records" i "Suc i"] by simp
  then show ?thesis using n a by (simp add: Sub_nonneg)
qed

section \<open>Totals\<close>

lemma totalLoop_sum: "totalLoop a ts = a + sum_list (map snd ts)"
  by (induction ts arbitrary: a) (simp_all add: add.assoc)

lemma groupLoop_finite: "finite (dom m) \<Longrightarrow> finite (dom (groupLoop m ts))"
  by (induction ts arbitrary: m) simp_all

lemma group_step_sum:
  assumes "finite (dom m)"
  shows "(\<Sum>x\<in>dom (m(k \<mapsto> (case m k of None \<Rightarrow> 0 | Some d \<Rightarrow> d) + v)).
            the ((m(k \<mapsto> (case m k of None \<Rightarrow> 0 | Some d \<Rightarrow> d) + v)) x))
         = (\<Sum>x\<in>dom m. the (m x)) + (v :: Duration)"
proof (cases "m k")
  case None
  then have "k \<notin> dom m" by (simp add: domIff)
  then have "(\<Sum>x\<in>dom m. the ((m(k \<mapsto> v)) x)) = (\<Sum>x\<in>dom m. the (m x))"
    by (intro sum.cong) auto
  then show ?thesis using assms None \<open>k \<notin> dom m\<close>
    by (simp add: add.commute)
next
  case (Some d)
  then have k: "k \<in> dom m" by (simp add: domIff)
  have "(\<Sum>x\<in>dom m. the (m x)) = the (m k) + (\<Sum>x\<in>dom m - {k}. the (m x))"
    using assms k by (simp add: sum.remove)
  moreover have "(\<Sum>x\<in>insert k (dom m). the ((m(k \<mapsto> d + v)) x))
                 = (d + v) + (\<Sum>x\<in>dom m - {k}. the ((m(k \<mapsto> d + v)) x))"
    using assms by (simp add: sum.insert_remove)
  moreover have "(\<Sum>x\<in>dom m - {k}. the ((m(k \<mapsto> d + v)) x))
                 = (\<Sum>x\<in>dom m - {k}. the (m x))"
    by (rule sum.cong) auto
  ultimately show ?thesis using Some by (simp add: add.commute add.left_commute)
qed

lemma groupLoop_sum:
  "finite (dom m) \<Longrightarrow>
   (\<Sum>k\<in>dom (groupLoop m ts). the (groupLoop m ts k))
   = (\<Sum>k\<in>dom m. the (m k)) + sum_list (map snd ts)"
proof (induction ts arbitrary: m)
  case Nil
  then show ?case by simp
next
  case (Cons t ts)
  let ?m = "m(fst t \<mapsto> (case m (fst t) of None \<Rightarrow> 0 | Some d \<Rightarrow> d) + snd t)"
  have f: "finite (dom ?m)" using Cons.prems by simp
  have "(\<Sum>k\<in>dom (groupLoop ?m ts). the (groupLoop ?m ts k))
        = (\<Sum>k\<in>dom ?m. the (?m k)) + sum_list (map snd ts)"
    by (rule Cons.IH [OF f])
  also have "(\<Sum>k\<in>dom ?m. the (?m k)) = (\<Sum>x\<in>dom m. the (m x)) + snd t"
    by (rule group_step_sum [OF Cons.prems])
  finally show ?case by (simp add: add.assoc del: fun_upd_apply)
qed

text \<open>
  C6. For every list of entries, the total time of the entries left by \<^verbatim>\<open>filterStops\<close>
  is the sum of the values of the map that \<^verbatim>\<open>groupDurations\<close> makes of them (both in
  the wrapping int64 arithmetic of \<^verbatim>\<open>time.Duration\<close>).
\<close>

theorem total_is_sum_of_groups:
  "computeTotalTime (filterStops s) =
     (\<Sum>k\<in>dom (groupDurations (filterStops s)). the (groupDurations (filterStops s) k))"
  using groupLoop_sum [of Map.empty "filterStops s"]
  by (simp add: computeTotalTime_def groupDurations_def totalLoop_sum)

section \<open>The reader on a file that grows at its end\<close>

lemma splitLines_Nil_iff [simp]: "splitLines s = [] \<longleftrightarrow> s = []"
  by (cases s) (auto split: list.splits)

lemma splitLines_append:
  "f = [] \<or> last f = LF \<Longrightarrow> splitLines (f @ g) = splitLines f @ splitLines g"
proof (induction f)
  case Nil
  then show ?case by simp
next
  case (Cons c cs)
  show ?case
  proof (cases "c = LF")
    case True
    have "cs = [] \<or> last cs = LF" using Cons.prems by (auto split: if_splits)
    with Cons.IH True show ?thesis by simp
  next
    case False
    then have cs: "cs \<noteq> []" "last cs = LF" using Cons.prems by (auto split: if_splits)
    then have e: "splitLines (cs @ g) = splitLines cs @ splitLines g" using Cons.IH by simp
    obtain l ls where l: "splitLines cs = l # ls"
      using cs(1) by (cases "splitLines cs") auto
    show ?thesis using False e l by simp
  qed
qed

lemma readLines_append:
  "f = [] \<or> last f = LF \<Longrightarrow> readLines (f @ g) = readLines f @ readLines g"
  by (simp add: readLines_def splitLines_append)

lemma parseField_extend:
    "parseField line rest flds = Inr (fs, rest') \<Longrightarrow>
     parseField line (rest @ ext) flds = Inr (fs, rest' @ ext)"
  and parseQuoted_extend:
    "parseQuoted line rest flds buf = Inr (fs, rest') \<Longrightarrow>
     parseQuoted line (rest @ ext) flds buf = Inr (fs, rest' @ ext)"
proof (induction line rest flds and line rest flds buf
       rule: parseField_parseQuoted.induct)
  case (1 line rest flds)
  show ?case
  proof (cases "line = [] \<or> hd line \<noteq> dq")
    case True
    show ?thesis
    proof (cases "indexByte line (CHR '','')")
      case None
      with True "1.prems" show ?thesis
        by (auto simp: parseField_last split: if_splits)
    next
      case (Some i)
      with True "1.prems" have
        "parseField (drop (i + 1) line) rest (flds @ [take i line]) = Inr (fs, rest')"
        and "dq \<notin> set (take i line)"
        by (auto simp: parseField_comma split: if_splits)
      with "1.IH"(1) [OF True Some] True Some show ?thesis by (simp add: parseField_comma)
    qed
  next
    case False
    with "1.prems" have "parseQuoted (drop 1 line) rest flds [] = Inr (fs, rest')"
      by (simp add: parseField_quoted)
    with "1.IH"(2) [OF False] False show ?thesis by (simp add: parseField_quoted)
  qed
next
  case (2 line rest flds buf)
  show ?case
  proof (cases "indexByte line dq")
    case None
    show ?thesis
    proof (cases rest)
      case Nil
      with None "2.prems" show ?thesis by (simp add: parseQuoted_eof)
    next
      case (Cons l r)
      show ?thesis
      proof (cases "line = []")
        case True
        with "2.prems" show ?thesis by (simp add: parseQuoted_empty)
      next
        case False
        with None Cons "2.prems" have "parseQuoted l r flds (buf @ line) = Inr (fs, rest')"
          by (simp add: parseQuoted_more)
        moreover have "0 < length line" using False by simp
        ultimately show ?thesis
          using "2.IH"(2) [OF None _ Cons] Cons None False by (simp add: parseQuoted_more)
      qed
    qed
  next
    case (Some i)
    let ?line' = "drop (i + 1) line"
    let ?buf' = "buf @ take i line"
    note p = "2.prems" [unfolded parseQuoted_found [OF Some]]
    show ?thesis
    proof (cases "?line' \<noteq> [] \<and> hd ?line' = dq")
      case True
      with p "2.IH"(3) [OF Some refl refl True] show ?thesis
        by (simp add: parseQuoted_found [OF Some])
    next
      case nq: False
      show ?thesis
      proof (cases "?line' \<noteq> [] \<and> hd ?line' = CHR '',''")
        case True
        with p nq "2.IH"(4) [OF Some refl refl nq True] show ?thesis
          by (auto simp add: parseQuoted_found [OF Some])
      next
        case False
        with p nq show ?thesis by (auto simp: parseQuoted_found [OF Some] split: if_splits)
      qed
    qed
  qed
qed

lemma readRecord_extend:
  "readRecord ls = Fields fs rest' \<Longrightarrow> readRecord (ls @ ext) = Fields fs (rest' @ ext)"
proof (induction ls)
  case Nil
  then show ?case by simp
next
  case (Cons line rest)
  show ?case
  proof (cases "length line = lengthNL line")
    case True
    with Cons show ?thesis by simp
  next
    case False
    with Cons.prems obtain p where p: "parseField line rest [] = Inr (fs, rest')"
      by (auto split: sum.splits)
    show ?thesis using False parseField_extend [OF p, of ext] by simp
  qed
qed

lemma readRecord_EOF_extend:
  "readRecord ls = EOF \<Longrightarrow> readRecord (ls @ ext) = readRecord ext"
  by (induction ls) (auto split: if_splits sum.splits)

lemma ReadAllLoop_cong:
  "readRecord a = readRecord b \<Longrightarrow> ReadAllLoop k a recs = ReadAllLoop k b recs"
  by (simp add: ReadAllLoop.simps [of k a] ReadAllLoop.simps [of k b])

lemma ReadAllLoop_extend:
  "ReadAllLoop k ls recs = Inr out \<Longrightarrow> 0 < k \<Longrightarrow>
   ReadAllLoop k (ls @ ext) recs = ReadAllLoop k ext out"
proof (induction k ls recs rule: ReadAllLoop.induct)
  case (1 k ls recs)
  show ?case
  proof (cases "readRecord ls")
    case EOF
    with "1.prems" have "out = recs" by (subst (asm) ReadAllLoop.simps) simp
    then show ?thesis
      using ReadAllLoop_cong [OF readRecord_EOF_extend [OF EOF, of ext]] by simp
  next
    case (Failed e)
    with "1.prems" show ?thesis by (subst (asm) ReadAllLoop.simps) simp
  next
    case (Fields flds rest)
    with "1.prems" have l: "length flds = k"
      and r: "ReadAllLoop k rest (recs @ [flds]) = Inr out"
      by (subst (asm) ReadAllLoop.simps, auto split: if_splits)+
    have "ReadAllLoop k (rest @ ext) (recs @ [flds]) = ReadAllLoop k ext out"
      using "1.IH" [OF Fields] l r "1.prems"(2) by simp
    then show ?thesis
      using readRecord_extend [OF Fields, of ext] l "1.prems"(2)
      by (subst ReadAllLoop.simps) simp
  qed
qed

lemma recordsLoop_append:
  "recordsLoop i (raws @ ext) acc =
     (case recordsLoop i raws acc of
        Inl e \<Rightarrow> Inl e
      | Inr recs \<Rightarrow> recordsLoop (i + length raws) ext recs)"
  by (induction i raws acc rule: recordsLoop.induct) (auto split: option.splits sum.splits)

section \<open>Reading back a line that writeTicket wrote\<close>

text \<open>A carriage return directly before a line feed, somewhere in the string.\<close>

fun hasCRLF :: "string \<Rightarrow> bool" where
  "hasCRLF (a # b # r) = ((a = CR \<and> b = LF) \<or> hasCRLF (b # r))"
| "hasCRLF _ = False"

lemma chars_distinct [simp]:
  "dq \<noteq> LF" "dq \<noteq> CR" "LF \<noteq> CR" "dq \<noteq> CHR '',''" "LF \<noteq> CHR '',''" "CR \<noteq> CHR '',''"
  "LF \<noteq> dq" "CR \<noteq> dq" "CR \<noteq> LF" "CHR '','' \<noteq> dq" "CHR '','' \<noteq> LF" "CHR '','' \<noteq> CR"
  by (simp_all add: dq_def LF_def CR_def)

lemma takeWhile_neq_skip: "c \<notin> set a \<Longrightarrow> takeWhile (\<lambda>x. x \<noteq> c) (a @ c # r) = a"
  by (induction a) auto

lemma indexByte_skip: "c \<notin> set a \<Longrightarrow> indexByte (a @ c # r) c = Some (length a)"
  by (simp add: indexByte_def takeWhile_neq_skip)

lemma indexByte_None: "c \<notin> set a \<Longrightarrow> indexByte a c = None"
  by (simp add: indexByte_def)

lemma parseQuoted_cons:
  "c \<noteq> dq \<Longrightarrow> l \<noteq> [] \<Longrightarrow>
   parseQuoted (c # l) rest flds buf = parseQuoted l rest flds (buf @ [c])"
proof (cases "dq \<in> set l")
  case True
  assume c: "c \<noteq> dq"
  let ?i = "length (takeWhile (\<lambda>x. x \<noteq> dq) l)"
  have i: "indexByte l dq = Some ?i" "indexByte (c # l) dq = Some (Suc ?i)"
    using True c by (simp_all add: indexByte_def)
  show ?thesis
    by (simp add: parseQuoted_found [OF i(1)] parseQuoted_found [OF i(2)])
next
  case False
  assume c: "c \<noteq> dq" and l: "l \<noteq> []"
  have i: "indexByte l dq = None" "indexByte (c # l) dq = None"
    using False c by (simp_all add: indexByte_def)
  show ?thesis
  proof (cases rest)
    case Nil
    then show ?thesis by (simp add: parseQuoted_eof i)
  next
    case (Cons a r)
    then show ?thesis using l by (simp add: parseQuoted_more i)
  qed
qed

lemma parseQuoted_close:
  "parseQuoted [dq, LF] rest flds buf = Inr (flds @ [buf], rest)"
proof -
  have "indexByte [dq, LF] dq = Some 0" by (simp add: indexByte_def)
  then show ?thesis by (simp add: parseQuoted_found lengthNL_def)
qed

text \<open>A quoted field without a quote inside, over as many lines as it has.\<close>

lemma parseQuoted_text:
  "dq \<notin> set t \<Longrightarrow> splitLines (t @ [dq, LF]) = l # ls \<Longrightarrow>
   parseQuoted l (ls @ ext) flds buf = Inr (flds @ [buf @ t], ext)"
proof (induction t arbitrary: l ls buf)
  case Nil
  then show ?case by (auto simp: parseQuoted_close)
next
  case (Cons c t)
  obtain l' ls' where s: "splitLines (t @ [dq, LF]) = l' # ls'"
    by (cases "splitLines (t @ [dq, LF])") auto
  have ih: "parseQuoted l' (ls' @ ext) flds b = Inr (flds @ [b @ t], ext)" for b
    using Cons.IH [OF _ s] Cons.prems(1) by simp
  have l': "l' \<noteq> []"
    using s by (cases "t @ [dq, LF]") (auto split: if_splits list.splits)
  show ?case
  proof (cases "c = LF")
    case True
    then have e: "l = [LF]" "ls = l' # ls'" using Cons.prems(2) s by auto
    have "indexByte [LF] dq = None" by (simp add: indexByte_def)
    then show ?thesis using e ih [of "buf @ [LF]"] True by (simp add: parseQuoted_more)
  next
    case False
    then have e: "l = c # l'" "ls = ls'" using Cons.prems(2) s by auto
    have "c \<noteq> dq" using Cons.prems(1) by auto
    then show ?thesis using e ih [of "buf @ [c]"] l' by (simp add: parseQuoted_cons)
  qed
qed

lemma splitLines_prefix:
  "LF \<notin> set p \<Longrightarrow> splitLines s = l # ls \<Longrightarrow> splitLines (p @ s) = (p @ l) # ls"
  by (induction p) auto

text \<open>A line as \<^verbatim>\<open>writeTicket\<close> writes it gives back its two fields.\<close>

lemma parseField_written:
  assumes "dq \<notin> set ts" "LF \<notin> set ts" "dq \<notin> set t"
    and "splitLines ([dq] @ ts @ [dq] @ '','' @ [dq] @ t @ [dq] @ [LF]) = l # ls"
  shows "parseField l (ls @ ext) [] = Inr ([ts, t], ext)"
proof -
  obtain l' ls' where s: "splitLines (t @ [dq, LF]) = l' # ls'"
    by (cases "splitLines (t @ [dq, LF])") auto
  let ?p = "[dq] @ ts @ [dq] @ '','' @ [dq]"
  have "LF \<notin> set ?p" using assms(2) by simp
  from splitLines_prefix [OF this s] assms(4)
  have e: "l = ?p @ l'" "ls = ls'" by simp_all
  have q: "parseQuoted l' (ls' @ ext) [ts] [] = Inr ([ts, t], ext)"
    using parseQuoted_text [OF assms(3) s, of ext "[ts]" "[]"] by simp
  have i: "indexByte (ts @ dq # CHR '','' # dq # l') dq = Some (length ts)"
    using assms(1) by (rule indexByte_skip)
  have "parseField l (ls @ ext) [] = parseQuoted (ts @ dq # CHR '','' # dq # l') (ls' @ ext) [] []"
    using e by (simp add: parseField_quoted)
  also have "\<dots> = parseField (dq # l') (ls' @ ext) [ts]"
    by (simp add: parseQuoted_found [OF i])
  also have "\<dots> = parseQuoted l' (ls' @ ext) [ts] []"
    by (simp add: parseField_quoted)
  finally show ?thesis using q by simp
qed

lemma hasCRLF_end: "hasCRLF (a @ [CR, LF])"
  by (induction a rule: hasCRLF.induct) auto

lemma normalizeLine_id:
  assumes "l \<noteq> []" "last l = LF" "\<not> hasCRLF l"
  shows "normalizeLine l = l"
proof -
  obtain b where b: "l = b @ [LF]"
    using assms(1,2) by (cases l rule: rev_cases) auto
  show ?thesis
  proof (cases b rule: rev_cases)
    case Nil
    then show ?thesis using b by (simp add: normalizeLine_def lengthNL_def)
  next
    case (snoc b' x)
    have "x \<noteq> CR" using assms(3) b snoc hasCRLF_end [of b'] by auto
    then show ?thesis using b snoc
      by (simp add: normalizeLine_def lengthNL_def nth_append)
  qed
qed

lemma hasCRLF_Cons: "\<not> hasCRLF (c # s) \<Longrightarrow> \<not> hasCRLF s"
  by (cases s) auto

lemma hd_splitLines:
  "splitLines s = l # ls \<Longrightarrow> l \<noteq> [] \<and> hd l = hd s"
  by (cases s) (auto split: if_splits list.splits)

lemma splitLines_normal:
  "s = [] \<or> last s = LF \<Longrightarrow> \<not> hasCRLF s \<Longrightarrow> l \<in> set (splitLines s) \<Longrightarrow>
   l \<noteq> [] \<and> last l = LF \<and> \<not> hasCRLF l"
proof (induction s arbitrary: l)
  case Nil
  then show ?case by simp
next
  case (Cons c cs)
  have n: "\<not> hasCRLF cs" using Cons.prems(2) by (rule hasCRLF_Cons)
  show ?case
  proof (cases "c = LF")
    case True
    have "cs = [] \<or> last cs = LF" using Cons.prems(1) by (auto split: if_splits)
    with Cons.IH n Cons.prems(3) True show ?thesis by auto
  next
    case False
    then have cs: "cs \<noteq> []" "last cs = LF" using Cons.prems(1) by (auto split: if_splits)
    obtain l' ls' where s: "splitLines cs = l' # ls'"
      using cs(1) by (cases "splitLines cs") auto
    have ih: "\<And>x. x \<in> set (l' # ls') \<Longrightarrow> x \<noteq> [] \<and> last x = LF \<and> \<not> hasCRLF x"
      using Cons.IH cs n s by auto
    have h: "l' \<noteq> []" "hd l' = hd cs" using hd_splitLines [OF s] by auto
    have "\<not> hasCRLF (c # l')"
    proof -
      obtain y ys where y: "l' = y # ys" using h(1) by (cases l') auto
      obtain z zs where z: "cs = z # zs" using cs(1) by (cases cs) auto
      have "y = z" using h(2) y z by simp
      moreover have "\<not> (c = CR \<and> z = LF)" using Cons.prems(2) z by auto
      moreover have "\<not> hasCRLF l'" using ih by auto
      ultimately show ?thesis using y by auto
    qed
    moreover have "last (c # l') = LF" using ih h(1) by auto
    ultimately show ?thesis using Cons.prems(3) False s ih by auto
  qed
qed

lemma readLines_no_CRLF:
  "s = [] \<or> last s = LF \<Longrightarrow> \<not> hasCRLF s \<Longrightarrow> readLines s = splitLines s"
  unfolding readLines_def
  by (rule map_idI) (metis normalizeLine_id splitLines_normal)

lemma hasCRLF_append_noCR: "CR \<notin> set p \<Longrightarrow> hasCRLF (p @ s) = hasCRLF s"
proof (induction p)
  case Nil
  then show ?case by simp
next
  case (Cons a p)
  then show ?case by (cases "p @ s") auto
qed

lemma hasCRLF_quote_end: "hasCRLF (t @ [dq, LF]) = hasCRLF t"
  by (induction t rule: hasCRLF.induct) auto

lemma isDigit_decimal: "c \<in> set (decimal n) \<Longrightarrow> isDigit c"
proof (induction n rule: decimal.induct)
  case (1 n)
  show ?case
  proof (cases "n < 10")
    case True
    with "1.prems" show ?thesis by (simp add: decimal1 isDigit_digitChar)
  next
    case False
    have "decimal n = decimal (n div 10) @ [digitChar (n mod 10)]"
      using False by (subst decimal.simps) simp
    with "1.prems" "1.IH" [OF False] show ?thesis
      by (auto simp: isDigit_digitChar)
  qed
qed

lemma isDigit_appendInt: "c \<in> set (appendInt n w) \<Longrightarrow> isDigit c"
  using isDigit_digitChar [of 0]
  by (auto simp: appendInt_def digitChar_0 dest: isDigit_decimal)

lemma isDigit_not_special:
  "isDigit c \<Longrightarrow> c \<noteq> dq \<and> c \<noteq> LF \<and> c \<noteq> CR"
  by (auto simp: isDigit_def dq_def LF_def CR_def)

lemma Format_chars: "dq \<notin> set (Format c)" "LF \<notin> set (Format c)" "CR \<notin> set (Format c)"
  using isDigit_not_special
  by (auto simp: Format_def dq_def LF_def CR_def dest!: isDigit_appendInt)

lemma readLines_header: "readLines CSV_HEADER = [CSV_HEADER]"
  by code_simp

lemma parseField_header: "parseField CSV_HEADER [] [] = Inr ([''timestamp'', ''title''], [])"
  by code_simp

lemma readRecord_header:
  "readRecord (CSV_HEADER # rest) = Fields [''timestamp'', ''title''] rest"
proof -
  have "length CSV_HEADER \<noteq> lengthNL CSV_HEADER" by (simp add: CSV_HEADER_def lengthNL_def)
  then show ?thesis using parseField_extend [OF parseField_header, of rest] by simp
qed

lemma last_header: "last CSV_HEADER = LF"
  by (simp add: CSV_HEADER_def)

lemma readLines_header_body: "readLines (CSV_HEADER @ body) = CSV_HEADER # readLines body"
  using readLines_append [of CSV_HEADER body] by (simp add: last_header readLines_header)

lemma ReadAll_header_body:
  "ReadAll (CSV_HEADER @ body) = ReadAllLoop 2 (readLines body) [[''timestamp'', ''title'']]"
  unfolding ReadAll_def readLines_header_body
  by (subst ReadAllLoop.simps) (simp add: readRecord_header numeral_2_eq_2 del: readRecord.simps)

lemma ensureCSVExists_header_body:
  "ensureCSVExists (CSV_HEADER @ body) = Inr (CSV_HEADER @ body)"
  by (simp add: ensureCSVExists_def readLines_header_body readRecord_header
        del: readRecord.simps)

lemma ensureCSVExists_empty: "ensureCSVExists [] = Inr CSV_HEADER"
  by (simp add: ensureCSVExists_def readLines_def)

lemma ReadAllLoop_prefix:
  "ReadAllLoop k ls recs = Inr out \<Longrightarrow> \<exists>ext. out = recs @ ext"
proof (induction k ls recs rule: ReadAllLoop.induct)
  case (1 k ls recs)
  show ?case
  proof (cases "readRecord ls")
    case EOF
    with "1.prems" show ?thesis by (subst (asm) ReadAllLoop.simps) simp
  next
    case (Failed e)
    with "1.prems" show ?thesis by (subst (asm) ReadAllLoop.simps) simp
  next
    case (Fields flds rest)
    with "1.prems" have c: "\<not> (0 < k \<and> length flds \<noteq> k)"
      and r: "ReadAllLoop (if k = 0 then length flds else k) rest (recs @ [flds]) = Inr out"
      by (subst (asm) ReadAllLoop.simps, auto split: if_splits)+
    from "1.IH" [OF Fields c r] show ?thesis by auto
  qed
qed

lemma ReadAllLoop_end: "ReadAllLoop k [] recs = Inr recs"
  by (subst ReadAllLoop.simps) simp

text \<open>The lines of a written record are read as one record of two fields.\<close>

lemma ReadAllLoop_written:
  assumes "dq \<notin> set t" "\<not> hasCRLF t"
  shows "ReadAllLoop 2 (readLines (literalRecord clock t)) raws
         = Inr (raws @ [[Format clock, t]])"
proof -
  define g where "g = [dq] @ Format clock @ [dq] @ '','' @ [dq] @ t @ [dq] @ [LF]"
  have lg: "literalRecord clock t = g" by (simp add: literalRecord_def g_def)
  have "CR \<notin> set ([dq] @ Format clock @ [dq] @ '','' @ [dq])"
    using Format_chars(3) [of clock] by (auto simp: CR_def dq_def)
  from hasCRLF_append_noCR [OF this, of "t @ [dq, LF]"]
  have n: "\<not> hasCRLF g" using assms(2) by (simp add: hasCRLF_quote_end g_def)
  have e: "g = [] \<or> last g = LF" by (simp add: g_def)
  have r: "readLines g = splitLines g"
    by (rule readLines_no_CRLF [OF e n])
  have "g \<noteq> []" by (simp add: g_def)
  then obtain l ls where s: "splitLines g = l # ls"
    by (cases "splitLines g") auto
  have p: "parseField l ls [] = Inr ([Format clock, t], [])"
    using parseField_written [OF Format_chars(1) Format_chars(2) assms(1) s [unfolded g_def],
        of "[]"] by simp
  have h: "l \<noteq> []" "hd l = dq" "last l = LF"
    using hd_splitLines [OF s] splitLines_normal [OF e n, of l] s by (simp_all add: g_def)
  have "length l \<noteq> lengthNL l"
  proof (cases l)
    case Nil
    then show ?thesis using h by simp
  next
    case (Cons a as)
    then have "as \<noteq> []" using h by auto
    then show ?thesis using Cons by (simp add: lengthNL_def)
  qed
  then have "readRecord (l # ls) = Fields [Format clock, t] []" using p by simp
  then show ?thesis
    unfolding lg r s by (subst ReadAllLoop.simps) (simp add: ReadAllLoop_end)
qed


lemma recordsLoop_last:
  "0 < i \<Longrightarrow> recordsLoop i [[ts, t]] recs =
     (case Parse ts of None \<Rightarrow> Inl ParseFatal
      | Some T \<Rightarrow> Inr (recs @ [\<lparr>timestamp = T, title = t\<rparr>]))"
  by (simp split: option.splits)

text \<open>
  A file that starts with the header and ends with a line feed, and that
  \<^verbatim>\<open>getRecords\<close> reads: with one more written line, whose title has no quote and no
  CR LF, it is read as the same records and one more.
\<close>

lemma getRecords_written:
  assumes "getRecords (CSV_HEADER @ body) = Inr (rs, file')"
    and "body = [] \<or> last body = LF"
    and "dq \<notin> set t" "\<not> hasCRLF t"
    and "Parse (Format clock) = Some T"
  shows "file' = CSV_HEADER @ body"
    and "getRecords (CSV_HEADER @ body @ literalRecord clock t)
         = Inr (rs @ [\<lparr>timestamp = T, title = t\<rparr>], CSV_HEADER @ body @ literalRecord clock t)"
proof -
  let ?hdr = "[''timestamp'', ''title'']"
  from assms(1) obtain raws where
    a: "ReadAllLoop 2 (readLines body) [?hdr] = Inr raws"
    and b: "recordsLoop 0 raws [] = Inr rs"
    and f: "file' = CSV_HEADER @ body"
    by (auto simp: getRecords_def ensureCSVExists_header_body ReadAll_header_body
        split: sum.splits)
  show "file' = CSV_HEADER @ body" by (rule f)
  obtain ext where raws: "raws = ?hdr # ext"
    using ReadAllLoop_prefix [OF a] by auto
  have "ReadAllLoop 2 (readLines (body @ literalRecord clock t)) [?hdr]
        = ReadAllLoop 2 (readLines body @ readLines (literalRecord clock t)) [?hdr]"
    using assms(2) by (simp add: readLines_append)
  also have "\<dots> = ReadAllLoop 2 (readLines (literalRecord clock t)) raws"
    by (rule ReadAllLoop_extend [OF a]) simp
  also have "\<dots> = Inr (raws @ [[Format clock, t]])"
    by (rule ReadAllLoop_written [OF assms(3,4)])
  finally have c: "ReadAll (CSV_HEADER @ body @ literalRecord clock t)
      = Inr (raws @ [[Format clock, t]])"
    by (simp add: ReadAll_header_body)
  have "recordsLoop 0 (raws @ [[Format clock, t]]) []
        = recordsLoop (0 + length raws) [[Format clock, t]] rs"
    by (simp add: recordsLoop_append b del: recordsLoop.simps)
  also have "\<dots> = Inr (rs @ [\<lparr>timestamp = T, title = t\<rparr>])"
    using raws assms(5) by (subst recordsLoop_last) simp_all
  finally show "getRecords (CSV_HEADER @ body @ literalRecord clock t)
         = Inr (rs @ [\<lparr>timestamp = T, title = t\<rparr>], CSV_HEADER @ body @ literalRecord clock t)"
    using c ensureCSVExists_header_body [of "body @ literalRecord clock t"]
    by (simp add: getRecords_def)
qed

section \<open>A file with no record, and reading twice\<close>

lemma splitLines_noLF: "LF \<notin> set s \<Longrightarrow> s \<noteq> [] \<Longrightarrow> splitLines s = [s]"
proof (induction s)
  case Nil
  then show ?case by simp
next
  case (Cons a s)
  then show ?case by (cases "s = []") auto
qed

lemma splitLines_one: "LF \<notin> set a \<Longrightarrow> splitLines (a @ [LF]) = [a @ [LF]]"
  by (induction a) auto

lemma readRecord_blank_line:
  "readRecord (l # ls) = EOF \<Longrightarrow> length l = lengthNL l \<and> readRecord ls = EOF"
  by (auto split: if_splits sum.splits)

lemma readRecord_CR_header:
  "readRecord (readLines (CR # CSV_HEADER)) = Fields [CR # ''timestamp'', ''title''] []"
  by code_simp

text \<open>After a file with no record, the header is read as the first record.\<close>

lemma readRecord_blank_header:
  "readRecord (readLines fl) = EOF \<Longrightarrow>
   \<exists>flds. readRecord (readLines (fl @ CSV_HEADER)) = Fields flds []"
proof (induction "length fl" arbitrary: fl rule: less_induct)
  case less
  show ?case
  proof (cases "LF \<in> set fl")
    case False
    show ?thesis
    proof (cases "fl = []")
      case True
      then show ?thesis by (simp add: readLines_header readRecord_header del: readRecord.simps)
    next
      case ne: False
      have "readLines fl = [normalizeLine fl]"
        using False ne by (simp add: readLines_def splitLines_noLF)
      with less.prems have "readRecord [normalizeLine fl] = EOF" by simp
      from readRecord_blank_line [OF this]
      have b: "length (normalizeLine fl) = lengthNL (normalizeLine fl)" by simp
      have l: "last fl \<noteq> LF" using False ne last_in_set by metis
      then have "lengthNL fl = 0" by (simp add: lengthNL_def)
      then have n: "normalizeLine fl = (if last fl = CR then butlast fl else fl)"
        using ne by (simp add: normalizeLine_def)
      have "set (normalizeLine fl) \<subseteq> set fl"
        unfolding n by (auto dest: in_set_butlastD)
      then have "LF \<notin> set (normalizeLine fl)" using False by auto
      then have "lengthNL (normalizeLine fl) = 0"
        unfolding lengthNL_def using last_in_set [of "normalizeLine fl"] by metis
      with b have z: "normalizeLine fl = []" by simp
      with n ne have "last fl = CR" "butlast fl = []" by (auto split: if_splits)
      then have "fl = [CR]" using append_butlast_last_id [OF ne] by simp
      then show ?thesis by (simp only: append_Cons append_Nil readRecord_CR_header) blast
    qed
  next
    case True
    then obtain a rest where f: "fl = a @ LF # rest" "LF \<notin> set a"
      by (auto dest: split_list_first)
    have e: "fl = (a @ [LF]) @ rest" using f(1) by simp
    have s: "splitLines (a @ [LF]) = [a @ [LF]]"
      using f(2) by (rule splitLines_one)
    have r1: "readLines (a @ [LF]) = [normalizeLine (a @ [LF])]"
      by (simp only: readLines_def s list.map)
    have r: "readLines fl = normalizeLine (a @ [LF]) # readLines rest"
      unfolding e using readLines_append [of "a @ [LF]" rest] by (simp add: r1)
    have r': "readLines (fl @ CSV_HEADER)
              = normalizeLine (a @ [LF]) # readLines (rest @ CSV_HEADER)"
      unfolding e using readLines_append [of "a @ [LF]" "rest @ CSV_HEADER"] by (simp add: r1)
    from less.prems have "readRecord (normalizeLine (a @ [LF]) # readLines rest) = EOF"
      by (simp only: r)
    from readRecord_blank_line [OF this] have b:
      "length (normalizeLine (a @ [LF])) = lengthNL (normalizeLine (a @ [LF]))"
      "readRecord (readLines rest) = EOF"
      by simp_all
    have "length rest < length fl" using f(1) by simp
    from less.hyps [OF this b(2)] obtain flds where
      "readRecord (readLines (rest @ CSV_HEADER)) = Fields flds []" by auto
    then show ?thesis unfolding r' using b(1) by simp
  qed
qed

lemma ensureCSVExists_idem:
  "ensureCSVExists file = Inr file' \<Longrightarrow> ensureCSVExists file' = Inr file'"
proof (cases "readRecord (readLines file)")
  case EOF
  assume "ensureCSVExists file = Inr file'"
  with EOF have f: "file' = file @ CSV_HEADER" by (simp add: ensureCSVExists_def)
  from readRecord_blank_header [OF EOF] show ?thesis
    unfolding f by (auto simp: ensureCSVExists_def)
next
  case (Failed e)
  assume "ensureCSVExists file = Inr file'"
  with Failed show ?thesis by (simp add: ensureCSVExists_def)
next
  case (Fields flds rest)
  assume "ensureCSVExists file = Inr file'"
  with Fields show ?thesis by (auto simp: ensureCSVExists_def)
qed

lemma getRecords_ensured:
  "getRecords file = Inr (rs, file') \<Longrightarrow> ensureCSVExists file = Inr file'"
  by (auto simp: getRecords_def split: sum.splits)

lemma getRecords_idem:
  "getRecords file = Inr (rs, file') \<Longrightarrow> getRecords file' = Inr (rs, file')"
proof -
  assume a: "getRecords file = Inr (rs, file')"
  have e: "ensureCSVExists file' = Inr file'"
    using ensureCSVExists_idem [OF getRecords_ensured [OF a]] .
  show ?thesis
    using a getRecords_ensured [OF a] e by (simp add: getRecords_def)
qed

lemma getRecords_file:
  "getRecords file = Inr (rs, file') \<Longrightarrow>
   file' = file \<or> (rs = [] \<and> file' = file @ CSV_HEADER)"
proof (cases "readRecord (readLines file)")
  case EOF
  assume a: "getRecords file = Inr (rs, file')"
  from getRecords_ensured [OF a] EOF have f: "file' = file @ CSV_HEADER"
    by (simp add: ensureCSVExists_def)
  from readRecord_blank_header [OF EOF] obtain flds where
    r: "readRecord (readLines (file @ CSV_HEADER)) = Fields flds []" by auto
  have "ReadAll (file @ CSV_HEADER) = Inr [flds]"
    unfolding ReadAll_def
    by (subst ReadAllLoop.simps) (simp add: r ReadAllLoop_end)
  with a f EOF have "rs = []"
    by (auto simp: getRecords_def ensureCSVExists_def split: sum.splits)
  with f show ?thesis by simp
next
  case (Failed e)
  assume "getRecords file = Inr (rs, file')"
  with Failed show ?thesis by (simp add: getRecords_def ensureCSVExists_def)
next
  case (Fields flds rest)
  assume "getRecords file = Inr (rs, file')"
  with Fields show ?thesis by (auto simp: getRecords_def ensureCSVExists_def split: sum.splits)
qed

lemma getRecords_empty: "getRecords [] = Inr ([], CSV_HEADER)"
  using ReadAll_header_body [of "[]"]
  by (simp add: getRecords_def ensureCSVExists_empty readLines_def ReadAllLoop_end)

lemma writeTicket_ensured:
  "ensureCSVExists file = Inr file \<Longrightarrow>
   writeTicket clock t file = Inr (file @ literalRecord clock t)"
  by (simp add: writeTicket_def)

lemma last_index: "rs \<noteq> [] \<Longrightarrow> rs ! (length rs - 1) = last rs"
  by (simp add: last_conv_nth)

section \<open>The commands on the ledger\<close>

text \<open>A clock reading for the examples: March 5, 2024, 09:15:00 and a quarter.\<close>

definition exampleClock :: Clock where
  "exampleClock =
     \<lparr>year = 2024, month = 3, day = 5, hour = 9, minute = 15, second = 0, nsec = 250000000\<rparr>"

lemma exampleClock_valid: "validClock exampleClock"
  by (simp add: validClock_def exampleClock_def daysIn_def daysBefore_def)

lemma exampleClock_now: "reparsedNow exampleClock = 63845226900000000000"
  unfolding reparsedNow_valid [OF exampleClock_valid]
  by (simp add: exampleClock_def Date_def daysBefore_def isLeap_def)

lemma Parse_exampleClock: "Parse (Format exampleClock) = Some 63845226900000000000"
  unfolding Parse_Format [OF exampleClock_valid]
  by (simp add: exampleClock_def Date_def daysBefore_def isLeap_def)

lemma getRecords_header: "getRecords CSV_HEADER = Inr ([], CSV_HEADER)"
  using ReadAll_header_body [of "[]"] ensureCSVExists_header_body [of "[]"]
  by (simp add: getRecords_def readLines_def ReadAllLoop_end)

lemma hasCRLF_STOP: "\<not> hasCRLF STOP_TOKEN" "dq \<notin> set STOP_TOKEN"
  by (simp_all add: STOP_TOKEN_def CR_def dq_def)

text \<open>
  On a ledger file that \<^verbatim>\<open>getRecords\<close> reads, a written line with a title free of
  quotes and of CR LF becomes the new last record, under the reparsed clock.
\<close>

lemma written_is_last_record:
  assumes "ledgerFile file" "getRecords file = Inr (rs, file')"
    and "dq \<notin> set t" "\<not> hasCRLF t" "validClock clock"
  shows "getRecords (file' @ literalRecord clock t)
         = Inr (rs @ [\<lparr>timestamp = reparsedNow clock, title = t\<rparr>],
                file' @ literalRecord clock t)"
    and "ledgerFile (file' @ literalRecord clock t)"
proof -
  have P: "Parse (Format clock) = Some (reparsedNow clock)"
    using Parse_Format [OF assms(5)] by (simp add: reparsedNow_def)
  have "\<exists>body. file' = CSV_HEADER @ body \<and> (body = [] \<or> last body = LF)
          \<and> getRecords (CSV_HEADER @ body) = Inr (rs, file')"
  proof (cases "file = []")
    case True
    with assms(2) have "rs = []" "file' = CSV_HEADER" by (simp_all add: getRecords_empty)
    then show ?thesis using getRecords_header by auto
  next
    case False
    with assms(1) have h: "take (length CSV_HEADER) file = CSV_HEADER" "last file = LF"
      by (simp_all add: ledgerFile_def)
    define body where "body = drop (length CSV_HEADER) file"
    have f: "file = CSV_HEADER @ body"
      using h(1) append_take_drop_id [of "length CSV_HEADER" "file"] by (simp add: body_def)
    have "file' = file"
      using getRecords_ensured [OF assms(2)] ensureCSVExists_header_body [of body] f by simp
    moreover have "body = [] \<or> last body = LF"
      using h(2) unfolding f by (cases "body = []") simp_all
    ultimately show ?thesis using assms(2) f by auto
  qed
  then obtain body where b: "file' = CSV_HEADER @ body" "body = [] \<or> last body = LF"
    "getRecords (CSV_HEADER @ body) = Inr (rs, file')" by auto
  show "getRecords (file' @ literalRecord clock t)
         = Inr (rs @ [\<lparr>timestamp = reparsedNow clock, title = t\<rparr>],
                file' @ literalRecord clock t)"
    using getRecords_written(2) [OF b(3) b(2) assms(3,4) P] b(1) by simp
  show "ledgerFile (file' @ literalRecord clock t)"
    using b(1) by (simp add: ledgerFile_def literalRecord_def)
qed

text \<open>
  C8. \<^verbatim>\<open>getLastTicketTitle\<close> returns the stop token when the ledger has no record, and
  otherwise the title of its last record.
\<close>

theorem getLastTicketTitle_status:
  assumes "getRecords file = Inr (rs, file')"
  shows "getLastTicketTitle file
         = Inr (if rs = [] then STOP_TOKEN else title (last rs), file')"
  using assms by (simp add: getLastTicketTitle_def last_conv_nth)

lemma example_ledger:
  "getRecords (CSV_HEADER @ literalRecord exampleClock ''A'')
   = Inr ([\<lparr>timestamp = 63845226900000000000, title = ''A''\<rparr>],
          CSV_HEADER @ literalRecord exampleClock ''A'')"
proof -
  have h: "getRecords (CSV_HEADER @ []) = Inr ([], CSV_HEADER)"
    using getRecords_header by simp
  have t: "dq \<notin> set ''A''" "\<not> hasCRLF ''A''" by (simp_all add: dq_def)
  show ?thesis
    using getRecords_written(2) [OF h _ t Parse_exampleClock] by simp
qed

theorem getLastTicketTitle_status_witness:
  "getRecords (CSV_HEADER @ literalRecord exampleClock ''A'')
     = Inr ([\<lparr>timestamp = 63845226900000000000, title = ''A''\<rparr>],
            CSV_HEADER @ literalRecord exampleClock ''A'')
   \<and> getLastTicketTitle (CSV_HEADER @ literalRecord exampleClock ''A'')
     = Inr (''A'', CSV_HEADER @ literalRecord exampleClock ''A'')"
  using getLastTicketTitle_status [OF example_ledger] example_ledger by simp

lemma getRecords_ensured_idem:
  "getRecords file = Inr (rs, file') \<Longrightarrow> ensureCSVExists file' = Inr file'"
  by (rule ensureCSVExists_idem [OF getRecords_ensured])

lemma startTicket_after_read:
  "getRecords file = Inr (rs, file') \<Longrightarrow>
   startTicket clock t file' = Inr (file' @ literalRecord clock t, STARTING t, 0)"
  by (simp add: startTicket_def writeTicket_ensured [OF getRecords_ensured_idem])

lemma penultimate_index: "length rs - 2 = length rs - Suc (Suc 0)"
  by simp

text \<open>
  The cases of \<^verbatim>\<open>restartLastTicket\<close>. On a ledger with the records \<open>rs\<close>, it ends in
  \<^verbatim>\<open>yellForNoRecord\<close> when there is none; with one record, in
  \<^verbatim>\<open>yellForNoPreviousTicket\<close> when its title is the stop token and in
  \<^verbatim>\<open>yellForNotStopped\<close> with that title otherwise; with two or more, in
  \<^verbatim>\<open>yellForNotStopped\<close> with the last title when that is not the stop token, in
  \<^verbatim>\<open>yellForNoPreviousTicket\<close> when the last two titles are both the stop token, and
  otherwise it calls \<^verbatim>\<open>startTicket\<close> with the title before the last, which appends
  the line of that title to the file. What the next read makes of that line depends on
  the title, as for every line that \<^verbatim>\<open>writeTicket\<close> writes.
\<close>

lemma restartLastTicket_cases:
  assumes "getRecords file = Inr (rs, file')"
  shows "restartLastTicket clock file =
           (if rs = [] then Inr (file', NoEntrySaved, 1)
            else if length rs = 1 then
              (if title (last rs) = STOP_TOKEN then Inr (file', NoPreviousTicket, 1)
               else Inr (file', CurrentlyWorkingOn (title (last rs)), 1))
            else if title (last rs) \<noteq> STOP_TOKEN
              then Inr (file', CurrentlyWorkingOn (title (last rs)), 1)
            else if title (rs ! (length rs - 2)) = STOP_TOKEN
              then Inr (file', NoPreviousTicket, 1)
            else startTicket clock (title (rs ! (length rs - 2))) file')
         \<and> startTicket clock t file' = Inr (file' @ literalRecord clock t, STARTING t, 0)"
proof -
  have one: "length rs = 1 \<Longrightarrow> rs ! 0 = last rs"
    by (cases rs) auto
  have l: "rs \<noteq> [] \<Longrightarrow> rs ! (length rs - 1) = last rs"
    by (rule last_index)
  show ?thesis
    using assms one l startTicket_after_read [OF assms, of clock t]
    by (simp add: restartLastTicket_def Let_def yellForNoRecord_def
        yellForNoPreviousTicket_def yellForNotStopped_def del: One_nat_def)
qed

lemma example_stopped:
  "getRecords (CSV_HEADER @ literalRecord exampleClock ''A'' @ literalRecord exampleClock STOP_TOKEN)
   = Inr ([\<lparr>timestamp = 63845226900000000000, title = ''A''\<rparr>,
           \<lparr>timestamp = 63845226900000000000, title = STOP_TOKEN\<rparr>],
          CSV_HEADER @ literalRecord exampleClock ''A'' @ literalRecord exampleClock STOP_TOKEN)"
proof -
  have e: "literalRecord exampleClock ''A'' = [] \<or> last (literalRecord exampleClock ''A'') = LF"
    by (simp add: literalRecord_def)
  show ?thesis
    using getRecords_written(2) [OF example_ledger e hasCRLF_STOP(2) hasCRLF_STOP(1)
        Parse_exampleClock] by simp
qed

lemma restartLastTicket_cases_witness:
  "getRecords (CSV_HEADER @ literalRecord exampleClock ''A'' @ literalRecord exampleClock STOP_TOKEN)
   = Inr ([\<lparr>timestamp = 63845226900000000000, title = ''A''\<rparr>,
           \<lparr>timestamp = 63845226900000000000, title = STOP_TOKEN\<rparr>],
          CSV_HEADER @ literalRecord exampleClock ''A'' @ literalRecord exampleClock STOP_TOKEN)
   \<and> restartLastTicket exampleClock
       (CSV_HEADER @ literalRecord exampleClock ''A'' @ literalRecord exampleClock STOP_TOKEN)
     = Inr ((CSV_HEADER @ literalRecord exampleClock ''A'' @ literalRecord exampleClock STOP_TOKEN)
              @ literalRecord exampleClock ''A'',
            STARTING ''A'', 0)"
  using restartLastTicket_cases [OF example_stopped, of exampleClock "''A''"] example_stopped
  by (simp add: STOP_TOKEN_def)

text \<open>
  C10. When \<^verbatim>\<open>restartLastTicket\<close> ends in one of its three failures
  (\<^verbatim>\<open>yellForNoRecord\<close>, \<^verbatim>\<open>yellForNoPreviousTicket\<close>, \<^verbatim>\<open>yellForNotStopped\<close>), it has
  written no line: the file is as \<^verbatim>\<open>getRecords\<close> left it (the given file, or the header
  alone added to a file that had no record), and the records read from it afterwards are
  the records read before.
\<close>

theorem restartLastTicket_failure_appends_nothing:
  assumes "restartLastTicket clock file = Inr (file2, m, status)"
    and "m = NoEntrySaved \<or> m = NoPreviousTicket \<or> m = CurrentlyWorkingOn t"
  shows "\<exists>rs. getRecords file = Inr (rs, file2) \<and> getRecords file2 = Inr (rs, file2)
              \<and> (file2 = file \<or> (rs = [] \<and> file2 = file @ CSV_HEADER))
              \<and> status = 1"
proof -
  from assms(1) obtain rs file' where g: "getRecords file = Inr (rs, file')"
    by (auto simp: restartLastTicket_def split: sum.splits)
  have s: "startTicket clock u file' = Inr (file' @ literalRecord clock u, STARTING u, 0)" for u
    by (rule startTicket_after_read [OF g])
  from assms g s have "file2 = file' \<and> status = 1"
    by (auto simp: restartLastTicket_def Let_def yellForNoRecord_def
        yellForNoPreviousTicket_def yellForNotStopped_def split: if_splits)
  then show ?thesis
    using g getRecords_idem [OF g] getRecords_file [OF g] by auto
qed

lemma restart_empty: "restartLastTicket clock [] = Inr (CSV_HEADER, NoEntrySaved, 1)"
  by (simp add: restartLastTicket_def getRecords_empty yellForNoRecord_def)

theorem restartLastTicket_failure_appends_nothing_witness:
  "restartLastTicket exampleClock [] = Inr (CSV_HEADER, NoEntrySaved, 1)
   \<and> (\<exists>rs. getRecords [] = Inr (rs, CSV_HEADER) \<and> getRecords CSV_HEADER = Inr (rs, CSV_HEADER)
            \<and> (CSV_HEADER = [] \<or> (rs = [] \<and> CSV_HEADER = [] @ CSV_HEADER)))"
  using restartLastTicket_failure_appends_nothing [OF restart_empty [of exampleClock], of "[]"]
    restart_empty [of exampleClock]
  by simp

text \<open>
  C3. With the records \<open>rs\<close> read from the file: when there is a last record and its
  title is not the stop token, \<^verbatim>\<open>stopTicket\<close> appends exactly the one line of the stop
  token and reports the title of that last record; when there is no record or the last
  title is the stop token, it writes nothing, the records stay as they are, and it
  reports that no ticket is being worked on. On a ledger file in the program's format, the
  appended line is read back as one more record, with the stop token as title, and a
  second \<^verbatim>\<open>stopTicket\<close> right after the first then writes nothing: one stop line in all.
\<close>

theorem stopTicket_appends_once:
  assumes "getRecords file = Inr (rs, file')"
  shows "(rs \<noteq> [] \<and> title (last rs) \<noteq> STOP_TOKEN \<longrightarrow>
            stopTicket clock file
              = Inr (file' @ literalRecord clock STOP_TOKEN, STOPPING (title (last rs)), 0)
            \<and> (ledgerFile file \<and> validClock clock \<longrightarrow>
                 getRecords (file' @ literalRecord clock STOP_TOKEN)
                   = Inr (rs @ [\<lparr>timestamp = reparsedNow clock, title = STOP_TOKEN\<rparr>],
                          file' @ literalRecord clock STOP_TOKEN)
                 \<and> stopTicket clock' (file' @ literalRecord clock STOP_TOKEN)
                   = Inr (file' @ literalRecord clock STOP_TOKEN, NotCurrentlyWorking, 0)))
         \<and> (rs = [] \<or> title (last rs) = STOP_TOKEN \<longrightarrow>
              stopTicket clock file = Inr (file', NotCurrentlyWorking, 0)
              \<and> getRecords file' = Inr (rs, file'))"
proof (intro conjI impI)
  assume w: "rs \<noteq> [] \<and> title (last rs) \<noteq> STOP_TOKEN"
  have e: "ensureCSVExists file' = Inr file'"
    by (rule getRecords_ensured_idem [OF assms])
  have l: "rs ! (length rs - Suc 0) = last rs" using w by (simp add: last_conv_nth)
  show "stopTicket clock file
          = Inr (file' @ literalRecord clock STOP_TOKEN, STOPPING (title (last rs)), 0)"
    using assms w by (simp add: stopTicket_def Let_def l writeTicket_ensured [OF e])
next
  assume "rs \<noteq> [] \<and> title (last rs) \<noteq> STOP_TOKEN" and h: "ledgerFile file \<and> validClock clock"
  have g: "getRecords (file' @ literalRecord clock STOP_TOKEN)
             = Inr (rs @ [\<lparr>timestamp = reparsedNow clock, title = STOP_TOKEN\<rparr>],
                    file' @ literalRecord clock STOP_TOKEN)"
    using written_is_last_record(1) [OF _ assms hasCRLF_STOP(2) hasCRLF_STOP(1)] h by simp
  show "getRecords (file' @ literalRecord clock STOP_TOKEN)
             = Inr (rs @ [\<lparr>timestamp = reparsedNow clock, title = STOP_TOKEN\<rparr>],
                    file' @ literalRecord clock STOP_TOKEN)"
    by (rule g)
  show "stopTicket clock' (file' @ literalRecord clock STOP_TOKEN)
          = Inr (file' @ literalRecord clock STOP_TOKEN, NotCurrentlyWorking, 0)"
    by (simp add: stopTicket_def g Let_def nth_append)
next
  assume i: "rs = [] \<or> title (last rs) = STOP_TOKEN"
  show "stopTicket clock file = Inr (file', NotCurrentlyWorking, 0)"
    using assms i by (auto simp: stopTicket_def Let_def last_conv_nth)
  show "getRecords file' = Inr (rs, file')"
    by (rule getRecords_idem [OF assms])
qed

lemma example_ledger_file: "ledgerFile (CSV_HEADER @ literalRecord exampleClock ''A'')"
  by (simp add: ledgerFile_def literalRecord_def)

theorem stopTicket_appends_once_witness:
  "getRecords (CSV_HEADER @ literalRecord exampleClock ''A'')
     = Inr ([\<lparr>timestamp = 63845226900000000000, title = ''A''\<rparr>],
            CSV_HEADER @ literalRecord exampleClock ''A'')
   \<and> ledgerFile (CSV_HEADER @ literalRecord exampleClock ''A'') \<and> validClock exampleClock
   \<and> stopTicket exampleClock (CSV_HEADER @ literalRecord exampleClock ''A'')
     = Inr ((CSV_HEADER @ literalRecord exampleClock ''A'') @ literalRecord exampleClock STOP_TOKEN,
            STOPPING ''A'', 0)
   \<and> stopTicket exampleClock
       ((CSV_HEADER @ literalRecord exampleClock ''A'') @ literalRecord exampleClock STOP_TOKEN)
     = Inr ((CSV_HEADER @ literalRecord exampleClock ''A'') @ literalRecord exampleClock STOP_TOKEN,
            NotCurrentlyWorking, 0)"
  using stopTicket_appends_once [OF example_ledger, of exampleClock exampleClock]
    example_ledger example_ledger_file exampleClock_valid
  by (simp add: STOP_TOKEN_def)

text \<open>
  C4, as the code has it. The token that \<^verbatim>\<open>stopTicket\<close> writes, that
  \<^verbatim>\<open>getLastTicketTitle\<close> returns for a ledger without records, and that
  \<^verbatim>\<open>filterStops\<close> and \<^verbatim>\<open>computeEntriesDuration\<close> compare titles with, is the string
  \<^verbatim>\<open>mate:STOP\<close>.
\<close>

theorem stop_token_is_mate_STOP:
  "STOP_TOKEN = ''mate:STOP''
   \<and> filterStops ts = filter (\<lambda>t. fst t \<noteq> ''mate:STOP'') ts
   \<and> getLastTicketTitle [] = Inr (''mate:STOP'', CSV_HEADER)
   \<and> stopTicket exampleClock (CSV_HEADER @ literalRecord exampleClock ''A'')
     = Inr (CSV_HEADER @ literalRecord exampleClock ''A''
              @ literalRecord exampleClock ''mate:STOP'',
            STOPPING ''A'', 0)"
proof -
  have f: "filterStops ts = filter (\<lambda>t. fst t \<noteq> STOP_TOKEN) ts"
    by (induction ts) simp_all
  have s: "stopTicket exampleClock (CSV_HEADER @ literalRecord exampleClock ''A'')
     = Inr ((CSV_HEADER @ literalRecord exampleClock ''A'') @ literalRecord exampleClock STOP_TOKEN,
            STOPPING ''A'', 0)"
    by (simp add: stopTicket_def example_ledger Let_def STOP_TOKEN_def writeTicket_def
        ensureCSVExists_header_body)
  show ?thesis
    using f s by (simp add: getLastTicketTitle_def getRecords_empty STOP_TOKEN_def)
qed

text \<open>
  C4, as the claim has it, fails: the token is not the string \<^verbatim>\<open>STOP\<close>, and a title
  \<^verbatim>\<open>STOP\<close> counts as a ticket: \<^verbatim>\<open>filterStops\<close> keeps it, and a ledger ending with it
  has an open last entry.
\<close>

theorem stop_token_is_not_STOP:
  "STOP_TOKEN \<noteq> ''STOP''
   \<and> filterStops [(''STOP'', 1)] = [(''STOP'', 1)]
   \<and> length (computeEntriesDuration [\<lparr>timestamp = 0, title = ''STOP''\<rparr>] exampleClock) = 1"
  by (simp add: STOP_TOKEN_def computeEntriesDuration_eq)

text \<open>C7 at two records an hour apart.\<close>

theorem adjacent_durations_nonneg_witness:
  "sorted (map timestamp [\<lparr>timestamp = 0, title = ''A''\<rparr>,
                           \<lparr>timestamp = 3600000000000, title = ''B''\<rparr>])
   \<and> (0 :: nat) < length [\<lparr>timestamp = 0, title = ''A''\<rparr>,
                           \<lparr>timestamp = 3600000000000, title = ''B''\<rparr>] - 1
   \<and> computeEntriesDuration [\<lparr>timestamp = 0, title = ''A''\<rparr>,
                              \<lparr>timestamp = 3600000000000, title = ''B''\<rparr>] exampleClock ! 0
     = (''A'', 3600000000000)
   \<and> 0 \<le> sint (snd (computeEntriesDuration [\<lparr>timestamp = 0, title = ''A''\<rparr>,
                              \<lparr>timestamp = 3600000000000, title = ''B''\<rparr>] exampleClock ! 0))"
proof -
  have h1: "sorted (map timestamp [\<lparr>timestamp = 0, title = ''A''\<rparr>,
                           \<lparr>timestamp = 3600000000000, title = ''B''\<rparr>])" by simp
  have h2: "(0 :: nat) < length [\<lparr>timestamp = 0, title = ''A''\<rparr>,
                           \<lparr>timestamp = 3600000000000, title = ''B''\<rparr>] - 1" by simp
  have s: "Sub 3600000000000 0 = 3600000000000" by (simp add: Sub_def)
  show ?thesis
    using adjacent_durations_nonneg [OF h1 h2, of exampleClock] h1 s by simp
qed

text \<open>
  A title without quotes and without CR LF, started on a ledger file in the program's
  format, is the title of the last record of the next read.
\<close>

lemma startTicket_roundtrip:
  assumes "ledgerFile file" "getRecords file = Inr (rs, file')"
    and "dq \<notin> set t" "\<not> hasCRLF t" "validClock clock"
  shows "startTicket clock t file = Inr (file' @ literalRecord clock t, STARTING t, 0)
         \<and> getRecords (file' @ literalRecord clock t)
           = Inr (rs @ [\<lparr>timestamp = reparsedNow clock, title = t\<rparr>],
                  file' @ literalRecord clock t)"
  using written_is_last_record(1) [OF assms] getRecords_ensured [OF assms(2)]
  by (simp add: startTicket_def writeTicket_def)

lemma parseField_first_field:
  "dq \<notin> set ts \<Longrightarrow>
   parseField (dq # ts @ dq # CHR '','' # dq # r) rest [] = parseQuoted r rest [ts] []"
proof -
  assume a: "dq \<notin> set ts"
  have i: "indexByte (ts @ dq # CHR '','' # dq # r) dq = Some (length ts)"
    using a by (rule indexByte_skip)
  have "parseField (dq # ts @ dq # CHR '','' # dq # r) rest []
        = parseQuoted (ts @ dq # CHR '','' # dq # r) rest [] []"
    by (simp add: parseField_quoted)
  also have "\<dots> = parseField (dq # r) rest [ts]"
    by (simp add: parseQuoted_found [OF i])
  also have "\<dots> = parseQuoted r rest [ts] []"
    by (simp add: parseField_quoted)
  finally show ?thesis .
qed

lemma readLines_one_line:
  "LF \<notin> set x \<Longrightarrow> CR \<notin> set x \<Longrightarrow> readLines (x @ [LF]) = [x @ [LF]]"
proof -
  assume a: "LF \<notin> set x" "CR \<notin> set x"
  have "\<not> hasCRLF (x @ [LF])" using hasCRLF_append_noCR [OF a(2), of "[LF]"] by simp
  then have "readLines (x @ [LF]) = splitLines (x @ [LF])"
    by (intro readLines_no_CRLF) simp_all
  then show ?thesis using splitLines_one [OF a(1)] by simp
qed

lemma parseQuoted_bare_quote:
  "parseQuoted [CHR ''a'', dq, CHR ''b'', dq, LF] rest flds buf = Inl ErrQuote"
proof -
  have i: "indexByte [CHR ''a'', dq, CHR ''b'', dq, LF] dq = Some 1"
    by (simp add: indexByte_def dq_def)
  show ?thesis
    by (subst parseQuoted_found [OF i]) (simp add: lengthNL_def dq_def LF_def)
qed

lemma parseQuoted_doubled_quote:
  "parseQuoted [dq, dq, dq, LF] rest flds [] = Inr (flds @ [[dq]], rest)"
proof -
  have i: "indexByte [dq, dq, dq, LF] dq = Some 0"
    by (simp add: indexByte_def)
  show ?thesis
    by (subst parseQuoted_found [OF i]) (simp add: parseQuoted_close)
qed

lemma literalRecord_line:
  "LF \<notin> set t \<Longrightarrow> CR \<notin> set t \<Longrightarrow>
   readLines (literalRecord clock t) = [literalRecord clock t]"
proof -
  assume a: "LF \<notin> set t" "CR \<notin> set t"
  have "readLines (([dq] @ Format clock @ [dq] @ '','' @ [dq] @ t @ [dq]) @ [LF])
        = [([dq] @ Format clock @ [dq] @ '','' @ [dq] @ t @ [dq]) @ [LF]]"
    using a Format_chars(2,3) [of clock]
    by (intro readLines_one_line) (auto simp: LF_def CR_def dq_def)
  then show ?thesis by (simp add: literalRecord_def)
qed

lemma literalRecord_not_blank:
  "length (literalRecord clock t) \<noteq> lengthNL (literalRecord clock t)"
  by (simp add: literalRecord_def lengthNL_def)

text \<open>
  C5 at the title \<^verbatim>\<open>a"b\<close>, started on an empty file: the line written is
  \<^verbatim>\<open>"2024/03/05 09:15:00","a"b"\<close>, and the next \<^verbatim>\<open>getRecords\<close> ends in
  \<^verbatim>\<open>log.Fatal\<close> on the reader's error for a quote inside a quoted field. At the title of
  two quotes the next read succeeds and returns a title of one quote.
\<close>

theorem startTicket_quote_not_read_back:
  "startTicket exampleClock [CHR ''a'', dq, CHR ''b''] []
     = Inr (CSV_HEADER @ literalRecord exampleClock [CHR ''a'', dq, CHR ''b''],
            STARTING [CHR ''a'', dq, CHR ''b''], 0)
   \<and> getRecords (CSV_HEADER @ literalRecord exampleClock [CHR ''a'', dq, CHR ''b''])
     = Inl (CsvFatal ErrQuote)
   \<and> startTicket exampleClock [dq, dq] []
     = Inr (CSV_HEADER @ literalRecord exampleClock [dq, dq], STARTING [dq, dq], 0)
   \<and> getRecords (CSV_HEADER @ literalRecord exampleClock [dq, dq])
     = Inr ([\<lparr>timestamp = 63845226900000000000, title = [dq]\<rparr>],
            CSV_HEADER @ literalRecord exampleClock [dq, dq])"
proof -
  have s: "startTicket exampleClock t [] = Inr (CSV_HEADER @ literalRecord exampleClock t,
      STARTING t, 0)" for t
    by (simp add: startTicket_def writeTicket_def ensureCSVExists_empty)
  let ?hdr = "[''timestamp'', ''title'']"
  have p1: "parseField (literalRecord exampleClock [CHR ''a'', dq, CHR ''b'']) [] [] = Inl ErrQuote"
    using parseField_first_field [OF Format_chars(1), of exampleClock
        "[CHR ''a'', dq, CHR ''b'', dq, LF]" "[]"] parseQuoted_bare_quote
    by (simp add: literalRecord_def)
  have r1: "ReadAll (CSV_HEADER @ literalRecord exampleClock [CHR ''a'', dq, CHR ''b''])
            = Inl ErrQuote"
    unfolding ReadAll_header_body
    by (subst literalRecord_line, simp add: LF_def dq_def, simp add: CR_def dq_def,
        subst ReadAllLoop.simps)
       (simp add: p1 literalRecord_not_blank)
  have g1: "getRecords (CSV_HEADER @ literalRecord exampleClock [CHR ''a'', dq, CHR ''b''])
     = Inl (CsvFatal ErrQuote)"
    by (simp add: getRecords_def ensureCSVExists_header_body r1)
  have p2: "parseField (literalRecord exampleClock [dq, dq]) [] []
            = Inr ([Format exampleClock, [dq]], [])"
    using parseField_first_field [OF Format_chars(1), of exampleClock "[dq, dq, dq, LF]" "[]"]
      parseQuoted_doubled_quote [of "[]" "[Format exampleClock]"]
    by (simp add: literalRecord_def)
  have r2: "ReadAll (CSV_HEADER @ literalRecord exampleClock [dq, dq])
            = Inr [?hdr, [Format exampleClock, [dq]]]"
    unfolding ReadAll_header_body
    by (subst literalRecord_line, simp, simp, subst ReadAllLoop.simps)
       (simp add: p2 literalRecord_not_blank ReadAllLoop_end)
  have g2: "getRecords (CSV_HEADER @ literalRecord exampleClock [dq, dq])
     = Inr ([\<lparr>timestamp = 63845226900000000000, title = [dq]\<rparr>],
            CSV_HEADER @ literalRecord exampleClock [dq, dq])"
    by (simp add: getRecords_def ensureCSVExists_header_body r2 Parse_exampleClock)
  show ?thesis using s g1 g2 by simp
qed

section \<open>Resuming a title with a quote\<close>

lemma parseQuoted_lone_quote:
  "parseQuoted [dq, dq, LF] [] flds [] = Inl ErrQuote"
proof -
  have i: "indexByte [dq, dq, LF] dq = Some 0"
    by (simp add: indexByte_def)
  have n: "indexByte [LF] dq = None"
    by (simp add: indexByte_def LF_def dq_def)
  show ?thesis
    by (subst parseQuoted_found [OF i]) (simp add: parseQuoted_eof [OF n])
qed

lemma getRecords_appended_failure:
  assumes "getRecords (CSV_HEADER @ body) = Inr (rs, file')"
    and "body = [] \<or> last body = LF"
    and "readRecord (readLines g) = Failed e"
  shows "getRecords (CSV_HEADER @ body @ g) = Inl (CsvFatal e)"
proof -
  let ?hdr = "[''timestamp'', ''title'']"
  from assms(1) obtain raws where
    a: "ReadAllLoop 2 (readLines body) [?hdr] = Inr raws"
    by (auto simp: getRecords_def ensureCSVExists_header_body ReadAll_header_body
        split: sum.splits)
  have "ReadAllLoop 2 (readLines (body @ g)) [?hdr]
        = ReadAllLoop 2 (readLines body @ readLines g) [?hdr]"
    using assms(2) by (simp add: readLines_append)
  also have "\<dots> = ReadAllLoop 2 (readLines g) raws"
    by (rule ReadAllLoop_extend [OF a]) simp
  also have "\<dots> = Inl e"
    by (subst ReadAllLoop.simps) (simp add: assms(3))
  finally have c: "ReadAll (CSV_HEADER @ body @ g) = Inl e"
    by (simp add: ReadAll_header_body)
  show ?thesis
    using c ensureCSVExists_header_body [of "body @ g"] by (simp add: getRecords_def)
qed

lemma readRecord_lone_quote:
  "readRecord (readLines (literalRecord clock [dq])) = Failed ErrQuote"
proof -
  have p: "parseField (literalRecord clock [dq]) [] [] = Inl ErrQuote"
    using parseField_first_field [OF Format_chars(1), of clock "[dq, dq, LF]" "[]"]
      parseQuoted_lone_quote [of "[Format clock]"]
    by (simp add: literalRecord_def)
  have l: "readLines (literalRecord clock [dq]) = [literalRecord clock [dq]]"
    by (rule literalRecord_line) simp_all
  show ?thesis
    unfolding l by (simp add: p literalRecord_not_blank)
qed

lemma quote_ledger:
  "getRecords (CSV_HEADER @ literalRecord exampleClock [dq, dq])
     = Inr ([\<lparr>timestamp = 63845226900000000000, title = [dq]\<rparr>],
            CSV_HEADER @ literalRecord exampleClock [dq, dq])"
proof -
  let ?hdr = "[''timestamp'', ''title'']"
  have p2: "parseField (literalRecord exampleClock [dq, dq]) [] []
            = Inr ([Format exampleClock, [dq]], [])"
    using parseField_first_field [OF Format_chars(1), of exampleClock "[dq, dq, dq, LF]" "[]"]
      parseQuoted_doubled_quote [of "[]" "[Format exampleClock]"]
    by (simp add: literalRecord_def)
  have r2: "ReadAll (CSV_HEADER @ literalRecord exampleClock [dq, dq])
            = Inr [?hdr, [Format exampleClock, [dq]]]"
    unfolding ReadAll_header_body
    by (subst literalRecord_line, simp, simp, subst ReadAllLoop.simps)
       (simp add: p2 literalRecord_not_blank ReadAllLoop_end)
  show ?thesis
    by (simp add: getRecords_def ensureCSVExists_header_body r2 Parse_exampleClock)
qed

lemma literalRecord_ends: "literalRecord clock t = [] \<or> last (literalRecord clock t) = LF"
  by (simp add: literalRecord_def)

lemma quote_ledger_stopped:
  "getRecords (CSV_HEADER @ literalRecord exampleClock [dq, dq]
                 @ literalRecord exampleClock STOP_TOKEN)
   = Inr ([\<lparr>timestamp = 63845226900000000000, title = [dq]\<rparr>,
           \<lparr>timestamp = 63845226900000000000, title = STOP_TOKEN\<rparr>],
          CSV_HEADER @ literalRecord exampleClock [dq, dq]
            @ literalRecord exampleClock STOP_TOKEN)"
  using getRecords_written(2) [OF quote_ledger literalRecord_ends hasCRLF_STOP(2) hasCRLF_STOP(1)
      Parse_exampleClock] by simp

text \<open>
  C2 on a ledger that the program wrote: \<^verbatim>\<open>startTicket\<close> with a title of two quotes
  on an empty file, then \<^verbatim>\<open>stopTicket\<close>. The ledger reads as a record whose title is
  one quote and a record of the stop token, so \<^verbatim>\<open>restartLastTicket\<close> is in its last
  case: it calls \<^verbatim>\<open>startTicket\<close> with the title of one quote and appends the line
  \<^verbatim>\<open>"2024/03/05 09:15:00","""\<close>. That title is not the new last record: the next
  \<^verbatim>\<open>getRecords\<close> ends in \<^verbatim>\<open>log.Fatal\<close> on the reader's error for a quoted field
  that is not closed.
\<close>

theorem restartLastTicket_quote_not_last_event:
  "startTicket exampleClock [dq, dq] []
     = Inr (CSV_HEADER @ literalRecord exampleClock [dq, dq], STARTING [dq, dq], 0)
   \<and> stopTicket exampleClock (CSV_HEADER @ literalRecord exampleClock [dq, dq])
     = Inr (CSV_HEADER @ literalRecord exampleClock [dq, dq]
              @ literalRecord exampleClock STOP_TOKEN,
            STOPPING [dq], 0)
   \<and> ledgerFile (CSV_HEADER @ literalRecord exampleClock [dq, dq]
                   @ literalRecord exampleClock STOP_TOKEN)
   \<and> getRecords (CSV_HEADER @ literalRecord exampleClock [dq, dq]
                   @ literalRecord exampleClock STOP_TOKEN)
     = Inr ([\<lparr>timestamp = 63845226900000000000, title = [dq]\<rparr>,
             \<lparr>timestamp = 63845226900000000000, title = STOP_TOKEN\<rparr>],
            CSV_HEADER @ literalRecord exampleClock [dq, dq]
              @ literalRecord exampleClock STOP_TOKEN)
   \<and> restartLastTicket exampleClock
       (CSV_HEADER @ literalRecord exampleClock [dq, dq]
          @ literalRecord exampleClock STOP_TOKEN)
     = Inr (CSV_HEADER @ literalRecord exampleClock [dq, dq]
              @ literalRecord exampleClock STOP_TOKEN @ literalRecord exampleClock [dq],
            STARTING [dq], 0)
   \<and> getRecords (CSV_HEADER @ literalRecord exampleClock [dq, dq]
                   @ literalRecord exampleClock STOP_TOKEN @ literalRecord exampleClock [dq])
     = Inl (CsvFatal ErrQuote)"
proof -
  let ?one = "literalRecord exampleClock [dq, dq]"
  let ?two = "literalRecord exampleClock STOP_TOKEN"
  have s: "startTicket exampleClock [dq, dq] [] = Inr (CSV_HEADER @ ?one, STARTING [dq, dq], 0)"
    by (simp add: startTicket_def writeTicket_def ensureCSVExists_empty)
  have q: "[dq] \<noteq> STOP_TOKEN"
    by (simp add: STOP_TOKEN_def dq_def)
  have t: "stopTicket exampleClock (CSV_HEADER @ ?one)
           = Inr (CSV_HEADER @ ?one @ ?two, STOPPING [dq], 0)"
    using q by (simp add: stopTicket_def quote_ledger Let_def writeTicket_def
        ensureCSVExists_header_body)
  have l: "ledgerFile (CSV_HEADER @ ?one @ ?two)"
    by (simp add: ledgerFile_def literalRecord_def)
  have w: "writeTicket exampleClock [dq] (CSV_HEADER @ ?one @ ?two)
           = Inr (CSV_HEADER @ ?one @ ?two @ literalRecord exampleClock [dq])"
    by (simp add: writeTicket_def ensureCSVExists_header_body)
  have r: "restartLastTicket exampleClock (CSV_HEADER @ ?one @ ?two)
           = Inr (CSV_HEADER @ ?one @ ?two @ literalRecord exampleClock [dq], STARTING [dq], 0)"
    using q by (simp add: restartLastTicket_def quote_ledger_stopped Let_def startTicket_def w
        yellForNoRecord_def yellForNoPreviousTicket_def yellForNotStopped_def)
  have e: "?one @ ?two = [] \<or> last (?one @ ?two) = LF"
    by (simp add: literalRecord_def)
  have g: "getRecords (CSV_HEADER @ ?one @ ?two @ literalRecord exampleClock [dq])
           = Inl (CsvFatal ErrQuote)"
    using getRecords_appended_failure [OF _ e readRecord_lone_quote, of _ _ exampleClock]
      quote_ledger_stopped by simp
  show ?thesis
    using s t l quote_ledger_stopped r g by simp
qed

section \<open>The entry that is still open\<close>

lemma Date_nsec: "Date y m d h mi s ns = Date y m d h mi s 0 + ns"
  by (simp add: Date_def Let_def)

lemma Date_whole: "Date y m d h mi s 0 mod 1000000000 = 0"
  by (simp add: Date_def Let_def)

lemma reparsedNow_truncates:
  "validClock c \<Longrightarrow> reparsedNow c = instantOf c - int (nsec c)"
  using Date_nsec [of "year c" "month c" "day c" "hour c" "minute c" "second c" "int (nsec c)"]
  by (simp add: reparsedNow_valid instantOf_def)

lemma whole_diff: "(a::int) mod n = 0 \<Longrightarrow> ((a - u) mod n = 0) = (u mod n = 0)"
  by (metis dvd_diff_right_iff mod_eq_0_iff_dvd)

lemma reparsedNow_whole: "validClock c \<Longrightarrow> reparsedNow c mod 1000000000 = 0"
  by (simp add: reparsedNow_valid Date_whole)

text \<open>
  C9, as the code has it. For records whose last title is not the stop token and a clock
  in the years 0 to 9999, the last entry is computed against now truncated to whole
  seconds: the instant read, less its nanoseconds, which are under one second. When the
  time from the last record to that now fits an int64 of nanoseconds, the duration is
  short of the time from the last record to the instant read by exactly those
  nanoseconds, and it is a whole number of seconds exactly when the timestamp of the last
  record is one.
\<close>

theorem trailing_duration_truncated:
  assumes "validClock clock" "records \<noteq> []" "title (last records) \<noteq> STOP_TOKEN"
  shows "reparsedNow clock = instantOf clock - int (nsec clock)
         \<and> int (nsec clock) < 1000000000
         \<and> reparsedNow clock mod 1000000000 = 0
         \<and> last (computeEntriesDuration records clock)
           = (title (last records), Sub (reparsedNow clock) (timestamp (last records)))
         \<and> (- (2 ^ 63) \<le> reparsedNow clock - timestamp (last records)
            \<and> reparsedNow clock - timestamp (last records) \<le> 2 ^ 63 - 1 \<longrightarrow>
              (instantOf clock - timestamp (last records))
                - sint (snd (last (computeEntriesDuration records clock))) = int (nsec clock)
              \<and> (sint (snd (last (computeEntriesDuration records clock))) mod 1000000000 = 0)
                = (timestamp (last records) mod 1000000000 = 0))"
proof -
  have l: "last (computeEntriesDuration records clock)
           = (title (last records), Sub (reparsedNow clock) (timestamp (last records)))"
    using assms(2,3) by (simp add: computeEntriesDuration_eq)
  have n: "int (nsec clock) < 1000000000" using assms(1) by (simp add: validClock_def)
  have w: "reparsedNow clock mod 1000000000 = 0" by (rule reparsedNow_whole [OF assms(1)])
  have t: "reparsedNow clock = instantOf clock - int (nsec clock)"
    by (rule reparsedNow_truncates [OF assms(1)])
  have m: "((reparsedNow clock - u) mod 1000000000 = 0) = (u mod 1000000000 = 0)" for u
    by (rule whole_diff [OF w])
  have r: "- (2 ^ 63) \<le> reparsedNow clock - timestamp (last records)
            \<and> reparsedNow clock - timestamp (last records) \<le> 2 ^ 63 - 1 \<Longrightarrow>
           sint (Sub (reparsedNow clock) (timestamp (last records)))
           = reparsedNow clock - timestamp (last records)"
    by (rule Sub_exact) simp_all
  show ?thesis
  proof (intro conjI impI)
    show "reparsedNow clock = instantOf clock - int (nsec clock)" by (rule t)
    show "int (nsec clock) < 1000000000" by (rule n)
    show "reparsedNow clock mod 1000000000 = 0" by (rule w)
    show "last (computeEntriesDuration records clock)
           = (title (last records), Sub (reparsedNow clock) (timestamp (last records)))"
      by (rule l)
  next
    assume a: "- (2 ^ 63) \<le> reparsedNow clock - timestamp (last records)
            \<and> reparsedNow clock - timestamp (last records) \<le> 2 ^ 63 - 1"
    show "(instantOf clock - timestamp (last records))
                - sint (snd (last (computeEntriesDuration records clock))) = int (nsec clock)"
      using r [OF a] t by (simp add: l)
    show "(sint (snd (last (computeEntriesDuration records clock))) mod 1000000000 = 0)
                = (timestamp (last records) mod 1000000000 = 0)"
      using r [OF a] m [of "timestamp (last records)"] by (simp add: l)
  qed
qed

theorem trailing_duration_truncated_witness:
  "validClock exampleClock
   \<and> [\<lparr>timestamp = 63845226840000000000, title = ''A''\<rparr>] \<noteq> []
   \<and> title (last [\<lparr>timestamp = 63845226840000000000, title = ''A''\<rparr>]) \<noteq> STOP_TOKEN
   \<and> reparsedNow exampleClock = 63845226900000000000
   \<and> instantOf exampleClock = 63845226900250000000
   \<and> - (2 ^ 63) \<le> reparsedNow exampleClock - (63845226840000000000 :: int)
   \<and> reparsedNow exampleClock - (63845226840000000000 :: int) \<le> 2 ^ 63 - 1
   \<and> last (computeEntriesDuration [\<lparr>timestamp = 63845226840000000000, title = ''A''\<rparr>]
             exampleClock) = (''A'', 60000000000)
   \<and> instantOf exampleClock - 63845226840000000000 - 60000000000 = 250000000
   \<and> (60000000000 :: int) mod 1000000000 = 0"
proof -
  let ?rs = "[\<lparr>timestamp = 63845226840000000000, title = ''A''\<rparr>]"
  have h: "?rs \<noteq> []" "title (last ?rs) \<noteq> STOP_TOKEN"
    by (simp_all add: STOP_TOKEN_def)
  have s: "Sub 63845226900000000000 63845226840000000000 = 60000000000"
    by (simp add: Sub_def)
  have i: "instantOf exampleClock = 63845226900250000000"
    by (simp add: instantOf_def exampleClock_def Date_def daysBefore_def isLeap_def)
  show ?thesis
    using trailing_duration_truncated [OF exampleClock_valid h] exampleClock_valid h i
    by (simp add: exampleClock_now s)
qed

lemma fraction_ledger:
  "getRecords (CSV_HEADER @ dq # ''2024/03/05 09:14:59.5'' @ dq # CHR '','' # dq # ''A'' @ [dq, LF])
   = Inr ([\<lparr>timestamp = 63845226899500000000, title = ''A''\<rparr>],
          CSV_HEADER @ dq # ''2024/03/05 09:14:59.5'' @ dq # CHR '','' # dq # ''A'' @ [dq, LF])"
  by code_simp

lemma old_ledger:
  "getRecords (CSV_HEADER @ dq # ''1700/01/01 00:00:00'' @ dq # CHR '','' # dq # ''A'' @ [dq, LF])
   = Inr ([\<lparr>timestamp = 53615260800000000000, title = ''A''\<rparr>],
          CSV_HEADER @ dq # ''1700/01/01 00:00:00'' @ dq # CHR '','' # dq # ''A'' @ [dq, LF])"
  by code_simp

text \<open>
  C9, as the claim has it, fails. \<^verbatim>\<open>time.Parse\<close> accepts a fraction after the seconds,
  so a ledger line can carry half a second, and then the last entry is half a second long;
  and a line of the year 1700 is more than an int64 of nanoseconds before the clock, so
  the last entry is the maximum duration, which is not a whole number of seconds and is
  more than thirty years short of the time passed.
\<close>

theorem trailing_duration_not_whole_seconds:
  "getRecords (CSV_HEADER @ dq # ''2024/03/05 09:14:59.5'' @ dq # CHR '','' # dq # ''A'' @ [dq, LF])
   = Inr ([\<lparr>timestamp = 63845226899500000000, title = ''A''\<rparr>],
          CSV_HEADER @ dq # ''2024/03/05 09:14:59.5'' @ dq # CHR '','' # dq # ''A'' @ [dq, LF])
   \<and> sint (snd (last (computeEntriesDuration
                  [\<lparr>timestamp = 63845226899500000000, title = ''A''\<rparr>] exampleClock)))
     = 500000000
   \<and> (500000000 :: int) mod 1000000000 = 500000000
   \<and> getRecords (CSV_HEADER @ dq # ''1700/01/01 00:00:00'' @ dq # CHR '','' # dq # ''A'' @ [dq, LF])
   = Inr ([\<lparr>timestamp = 53615260800000000000, title = ''A''\<rparr>],
          CSV_HEADER @ dq # ''1700/01/01 00:00:00'' @ dq # CHR '','' # dq # ''A'' @ [dq, LF])
   \<and> sint (snd (last (computeEntriesDuration
                  [\<lparr>timestamp = 53615260800000000000, title = ''A''\<rparr>] exampleClock)))
     = 9223372036854775807
   \<and> (9223372036854775807 :: int) mod 1000000000 = 854775807
   \<and> instantOf exampleClock - 53615260800000000000 - 9223372036854775807
     = 1006594063395224193"
proof -
  have s1: "sint (Sub 63845226900000000000 63845226899500000000) = 500000000"
    by (simp add: Sub_def)
  have s2: "sint (Sub 63845226900000000000 53615260800000000000) = 9223372036854775807"
    by (simp add: Sub_def maxDuration_def)
  have i: "instantOf exampleClock = 63845226900250000000"
    by (simp add: instantOf_def exampleClock_def Date_def daysBefore_def isLeap_def)
  show ?thesis
    using fraction_ledger old_ledger s1 s2 i
    by (simp add: computeEntriesDuration_eq STOP_TOKEN_def exampleClock_now)
qed

end
